theory Spec2Isabelle
  imports Main "HOL-Library.Word"
begin

unbundle bit_operations_syntax

section \<open>BFAST: data model\<close>

text \<open>
  The embedding follows \<^verbatim>\<open>include/bfast.h\<close>; \<^verbatim>\<open>sandbox/bfast.h\<close> has the same
  constants, alignment functions, offset computation and \<^verbatim>\<open>copy_to\<close>. \<^verbatim>\<open>byte\<close> is
  \<^verbatim>\<open>uint8_t\<close>, \<^verbatim>\<open>ulong\<close> is \<^verbatim>\<open>uint64_t\<close>, \<^verbatim>\<open>size_t\<close> is taken as 64 bits wide
  and \<^verbatim>\<open>int\<close> as 32 bits wide (the LP64 and LLP64 data models). Unsigned arithmetic
  wraps around, as that of \<open>'a word\<close> does.

  The file is not a well-formed program as it stands (\<^verbatim>\<open>retrun\<close>, a \<^verbatim>\<open>struct\<close> without
  its semicolon, names that are not declared, \<^verbatim>\<open>(char*)x\<close> for the address of \<^verbatim>\<open>x\<close>,
  functions without their \<^verbatim>\<open>return\<close>). Each such place is read as the nearest
  well-formed program and is named where it is modelled. \<^verbatim>\<open>BfastData::unpack\<close> stops
  after taking the names buffer and builds no buffer; it is not modelled.
\<close>

type_synonym byte = "8 word"
type_synonym ulong = "64 word"
type_synonym size_t = "64 word"
type_synonym cint = "32 word"
type_synonym bytes = "byte list"

text \<open>
  The outcomes that are not a returned value. The first five are the error kinds the
  specification names; the source only ever throws two \<^verbatim>\<open>runtime_error\<close>s, "invalid
  magic number, ..." (\<open>InvalidMagic\<close>) and "data ends before it starts"
  (\<open>InconsistentBounds\<close>). The last two are behaviour that C++ leaves undefined:
  \<open>OutOfBounds\<close> is a read or a write outside the byte vector through an unchecked
  pointer or index, \<open>SignedOverflow\<close> is the increment of an \<^verbatim>\<open>int\<close> that holds
  \<^verbatim>\<open>INT_MAX\<close>.
\<close>

datatype error =
    InvalidMagic
  | InconsistentBounds
  | TruncatedStream
  | NameTableMismatch
  | EmbeddedNullInName
  | OutOfBounds
  | SignedOverflow

subsection \<open>Constants\<close>

definition MAGIC :: ulong where
  "MAGIC = 0xBFA5"

text \<open>
  \<^verbatim>\<open>E1 << E2\<close> on two operands of type \<^verbatim>\<open>int\<close>: the shift is done in \<^verbatim>\<open>int\<close>, and it
  is undefined (\<open>None\<close>) when the count reaches the width of \<^verbatim>\<open>int\<close>, when \<^verbatim>\<open>E1\<close> is
  negative, or when the result does not fit the unsigned type of the same width.
\<close>

definition shl_int :: "cint \<Rightarrow> nat \<Rightarrow> cint option" where
  "shl_int e1 e2 =
     (if e2 \<ge> 32 then None
      else if sint e1 < 0 then None
      else if sint e1 * 2 ^ e2 \<ge> 2 ^ 32 then None
      else Some (push_bit e2 e1))"

text \<open>
  \<^verbatim>\<open>const ulong SWAPPED_MAGIC = 0xA5BF << 48;\<close> The literal \<^verbatim>\<open>0xA5BF\<close> fits \<^verbatim>\<open>int\<close>
  and so has type \<^verbatim>\<open>int\<close>, as the count has; the value of the shift is then converted
  to \<^verbatim>\<open>ulong\<close> (sign extension).
\<close>

definition SWAPPED_MAGIC :: "ulong option" where
  "SWAPPED_MAGIC = map_option scast (shl_int 0xA5BF 48)"

definition INT_MAX :: cint where
  "INT_MAX = 0x7FFFFFFF"

definition header_size :: nat where
  "header_size = 32"

definition array_offset_size :: nat where
  "array_offset_size = 16"

definition array_offsets_start :: nat where
  "array_offsets_start = 64"

definition alignment :: nat where
  "alignment = 64"

subsection \<open>Alignment arithmetic\<close>

definition is_aligned :: "size_t \<Rightarrow> bool" where
  "is_aligned n = (n mod of_nat alignment = 0)"

definition aligned_value :: "size_t \<Rightarrow> size_t" where
  "aligned_value n =
     (if is_aligned n then n else n + of_nat alignment - (n mod of_nat alignment))"

subsection \<open>Structures\<close>

text \<open>\<^verbatim>\<open>struct ArrayOffset { ulong _begin; ulong _end; }\<close>\<close>

record ArrayOffset =
  offset_begin :: ulong
  offset_end :: ulong

text \<open>\<^verbatim>\<open>struct alignas(8) Header\<close>, the fields in the order of the declaration.\<close>

record Header =
  magic :: ulong
  data_start :: ulong
  data_end :: ulong
  num_arrays :: ulong

text \<open>
  A \<^verbatim>\<open>ByteRange\<close> is a pair of pointers. The packer reads the bytes between the two
  and their number only, so a range given to it is the list of these bytes. A range
  made by \<^verbatim>\<open>unpack\<close> points into the stream: it is the pair of the two indices,
  counted from \<^verbatim>\<open>&data[0]\<close>.
\<close>

definition range_size :: "bytes \<Rightarrow> size_t" where
  "range_size rng = of_nat (length rng)"

record ByteRange =
  range_begin :: ulong
  range_end :: ulong

text \<open>\<^verbatim>\<open>struct Buffer { string name; ByteRange data; }\<close>\<close>

record Buffer =
  buffer_name :: string
  buffer_data :: bytes

subsection \<open>Object representation\<close>

text \<open>
  The bytes of a \<^verbatim>\<open>ulong\<close> in memory, least significant first (the byte order of the
  layout table), and the value of eight such bytes.
\<close>

definition ulong_bytes :: "ulong \<Rightarrow> bytes" where
  "ulong_bytes w = map (\<lambda>i. ucast (drop_bit (8 * i) w)) [0..<8]"

definition bytes_ulong :: "bytes \<Rightarrow> ulong" where
  "bytes_ulong bs = foldr (\<lambda>b acc. ucast b OR push_bit 8 acc) bs 0"

definition Header_bytes :: "Header \<Rightarrow> bytes" where
  "Header_bytes h =
     ulong_bytes (magic h) @ ulong_bytes (data_start h) @
     ulong_bytes (data_end h) @ ulong_bytes (num_arrays h)"

definition ArrayOffset_bytes :: "ArrayOffset \<Rightarrow> bytes" where
  "ArrayOffset_bytes off = ulong_bytes (offset_begin off) @ ulong_bytes (offset_end off)"

section \<open>Offset table builder\<close>

text \<open>
  \<^verbatim>\<open>compute_data_start\<close>: \<^verbatim>\<open>r = 0; r += header_size; r = aligned_value(r);
  r += array_offset_size * ranges.size(); r = aligned_value(r);\<close>
\<close>

definition compute_data_start :: "bytes list \<Rightarrow> size_t" where
  "compute_data_start ranges =
     aligned_value
       (aligned_value (0 + of_nat header_size)
        + of_nat array_offset_size * of_nat (length ranges))"

text \<open>
  The loop of \<^verbatim>\<open>compute_offsets\<close> over the ranges left, with the cursor \<^verbatim>\<open>n\<close> and the
  vector \<^verbatim>\<open>r\<close> built by \<^verbatim>\<open>push_back\<close>.
\<close>

fun compute_offsets_loop :: "bytes list \<Rightarrow> size_t \<Rightarrow> ArrayOffset list \<Rightarrow> ArrayOffset list" where
  "compute_offsets_loop [] n r = r"
| "compute_offsets_loop (rng # ranges) n r =
     compute_offsets_loop ranges
       (aligned_value (n + range_size rng))
       (r @ [\<lparr>offset_begin = n, offset_end = n + range_size rng\<rparr>])"

definition compute_offsets :: "bytes list \<Rightarrow> ArrayOffset list" where
  "compute_offsets ranges = compute_offsets_loop ranges (compute_data_start ranges) []"

definition compute_needed_size :: "bytes list \<Rightarrow> size_t" where
  "compute_needed_size ranges =
     (let tmp = compute_offsets ranges
      in if length tmp = 0 then compute_data_start ranges else offset_end (last tmp))"

text \<open>
  The builder in the words of the specification, to compare with: the cursor starts at
  the data start of \<open>count\<close> ranges; each length \<open>L\<close> emits the offset from the cursor
  to the cursor plus \<open>L\<close> and moves the cursor to the aligned value of that end.
\<close>

definition spec_data_start :: "nat \<Rightarrow> size_t" where
  "spec_data_start count = aligned_value (aligned_value (of_nat header_size) + of_nat count * 16)"

fun spec_offsets :: "size_t \<Rightarrow> size_t list \<Rightarrow> ArrayOffset list" where
  "spec_offsets cursor [] = []"
| "spec_offsets cursor (L # Ls) =
     \<lparr>offset_begin = cursor, offset_end = cursor + L\<rparr> # spec_offsets (aligned_value (cursor + L)) Ls"

section \<open>Writing the stream\<close>

text \<open>
  The output iterator of \<^verbatim>\<open>pack\<close> is the pointer \<^verbatim>\<open>r.data()\<close> into the vector (\<open>mem\<close>,
  of a fixed size); \<open>out\<close> is its distance from the start of the vector. \<^verbatim>\<open>*out++ = b\<close>
  stores at \<open>out\<close> when that is inside the vector and is undefined otherwise.
  \<^verbatim>\<open>std::copy\<close> stores the bytes one after the other and returns the advanced pointer.
\<close>

fun std_copy :: "bytes \<Rightarrow> bytes \<Rightarrow> nat \<Rightarrow> error + (bytes \<times> nat)" where
  "std_copy [] mem out = Inr (mem, out)"
| "std_copy (b # bs) mem out =
     (if out < length mem then std_copy bs (mem[out := b]) (Suc out) else Inl OutOfBounds)"

text \<open>
  \<^verbatim>\<open>copy_to(T& x, OutIter_T out, int& current)\<close>, given the \<^verbatim>\<open>sizeof(T)\<close> bytes of
  \<^verbatim>\<open>x\<close> (\<^verbatim>\<open>begin = (char*)x\<close> is read as the address of \<^verbatim>\<open>x\<close>): \<^verbatim>\<open>current\<close> grows by
  their number (the sum is narrowed to \<^verbatim>\<open>int\<close>) and the bytes are copied to \<^verbatim>\<open>out\<close>;
  the new pointer is returned.
\<close>

definition copy_to_T :: "bytes \<Rightarrow> bytes \<Rightarrow> nat \<Rightarrow> cint \<Rightarrow> error + (bytes \<times> nat \<times> cint)" where
  "copy_to_T x mem out current =
     (case std_copy x mem out of
        Inl e \<Rightarrow> Inl e
      | Inr (mem', out') \<Rightarrow> Inr (mem', out', current + of_nat (length x)))"

text \<open>
  \<^verbatim>\<open>output_padding(OutIter_T out, int& current)\<close>: \<^verbatim>\<open>out\<close> is passed by value and the
  advanced pointer is the returned value; \<^verbatim>\<open>current\<close> is passed by reference. The result
  is the memory, the returned pointer and \<^verbatim>\<open>current\<close>.
\<close>

function output_padding :: "bytes \<Rightarrow> nat \<Rightarrow> cint \<Rightarrow> error + (bytes \<times> nat \<times> cint)" where
  "output_padding mem out current =
     (if \<not> is_aligned (scast current) then
        (if out < length mem then
           (if current = INT_MAX then Inl SignedOverflow
            else output_padding (mem[out := 0]) (Suc out) (current + 1))
         else Inl OutOfBounds)
      else Inr (mem, out, current))"
  by pat_completeness auto
text \<open>\<^verbatim>\<open>for (auto off : offsets) out = copy_to(off, out, current);\<close>\<close>

fun copy_offsets :: "ArrayOffset list \<Rightarrow> bytes \<Rightarrow> nat \<Rightarrow> cint \<Rightarrow> error + (bytes \<times> nat \<times> cint)" where
  "copy_offsets [] mem out current = Inr (mem, out, current)"
| "copy_offsets (off # offsets) mem out current =
     (case copy_to_T (ArrayOffset_bytes off) mem out current of
        Inl e \<Rightarrow> Inl e
      | Inr (mem', out', current') \<Rightarrow> copy_offsets offsets mem' out' current')"

text \<open>
  The loop that copies the arrays, over the ranges from index \<open>i\<close> on:
  \<^verbatim>\<open>out = copy(range.begin(), range.end(), out); current += range.size();
  output_padding(out, current);\<close> The pointer that \<^verbatim>\<open>output_padding\<close> returns is dropped
  here, so the next range is copied to where the last one ended, while \<^verbatim>\<open>current\<close> has
  moved on. The index is an \<^verbatim>\<open>int\<close> (\<^verbatim>\<open>auto i = 0\<close>).
\<close>

fun copy_arrays :: "bytes list \<Rightarrow> cint \<Rightarrow> bytes \<Rightarrow> nat \<Rightarrow> cint \<Rightarrow> error + bytes" where
  "copy_arrays [] i mem out current = Inr mem"
| "copy_arrays (rng # ranges) i mem out current =
     (case std_copy rng mem out of
        Inl e \<Rightarrow> Inl e
      | Inr (mem1, out1) \<Rightarrow>
          (case output_padding mem1 out1 (current + ucast (range_size rng)) of
             Inl e \<Rightarrow> Inl e
           | Inr (mem2, out2, current2) \<Rightarrow>
               if i = INT_MAX then Inl SignedOverflow
               else copy_arrays ranges (i + 1) mem2 out1 current2))"

text \<open>
  \<^verbatim>\<open>copy_to(OutIter_T out)\<close>: the header is filled out from the offsets
  (\<^verbatim>\<open>front()\<close> and \<^verbatim>\<open>back()\<close> are taken of a vector that is not empty), then the
  header, the offsets and the arrays are written. Assertions are taken as compiled out
  (\<^verbatim>\<open>NDEBUG\<close>), so that \<^verbatim>\<open>assert(current = compute_data_start())\<close> stores nothing.
\<close>

definition fill_header :: "ArrayOffset list \<Rightarrow> Header" where
  "fill_header offsets =
     (let n = length offsets
      in \<lparr>magic = MAGIC,
          data_start = (if n = 0 then 0 else offset_begin (hd offsets)),
          data_end = (if n = 0 then 0 else offset_end (last offsets)),
          num_arrays = of_nat n\<rparr>)"

definition copy_to :: "bytes list \<Rightarrow> bytes \<Rightarrow> nat \<Rightarrow> error + bytes" where
  "copy_to ranges mem0 out0 =
     (let offsets = compute_offsets ranges;
          n = length offsets;
          current = 0;
          h = fill_header offsets
      in case copy_to_T (Header_bytes h) mem0 out0 current of
           Inl e \<Rightarrow> Inl e
         | Inr (mem1, out1, current1) \<Rightarrow>
        (case output_padding mem1 out1 current1 of
           Inl e \<Rightarrow> Inl e
         | Inr (mem2, out2, current2) \<Rightarrow>
        if n = 0 then Inr mem2
        else
        (case copy_offsets offsets mem2 out2 current2 of
           Inl e \<Rightarrow> Inl e
         | Inr (mem3, out3, current3) \<Rightarrow>
        (case output_padding mem3 out3 current3 of
           Inl e \<Rightarrow> Inl e
         | Inr (mem4, out4, current4) \<Rightarrow>
        copy_arrays ranges 0 mem4 out4 current4))))"

text \<open>
  \<^verbatim>\<open>vector<byte> r(compute_needed_size()); copy_to(r.data()); return r;\<close> The vector
  starts as that many zero bytes.
\<close>

definition pack :: "bytes list \<Rightarrow> error + bytes" where
  "pack ranges = copy_to ranges (replicate (unat (compute_needed_size ranges)) 0) 0"

text \<open>
  \<^verbatim>\<open>BfastData::to_raw_data\<close> and \<^verbatim>\<open>BfastData::pack\<close>. In the source the loop appends to
  \<^verbatim>\<open>names\<close> and runs over \<^verbatim>\<open>buffer\<close>, which are declared nowhere, and the function has
  no \<^verbatim>\<open>return\<close>; they are read as \<^verbatim>\<open>name_data\<close>, \<^verbatim>\<open>buffers\<close> and \<^verbatim>\<open>return r;\<close>.
  The names buffer is each name followed by a null byte; it is the first range.
\<close>

definition to_raw_data :: "Buffer list \<Rightarrow> bytes list" where
  "to_raw_data buffers =
     (let name_data = concat (map (\<lambda>b. map of_char (buffer_name b) @ [0]) buffers)
      in name_data # map buffer_data buffers)"

definition BfastData_pack :: "Buffer list \<Rightarrow> error + bytes" where
  "BfastData_pack buffers = pack (to_raw_data buffers)"

section \<open>Reading the stream\<close>

text \<open>
  A \<^verbatim>\<open>ulong\<close> read through a pointer into the vector \<^verbatim>\<open>data\<close>, \<open>k\<close> bytes from its
  start: undefined when the eight bytes are not all inside the vector.
\<close>

definition read_ulong :: "bytes \<Rightarrow> int \<Rightarrow> error + ulong" where
  "read_ulong data k =
     (if 0 \<le> k \<and> nat k + 8 \<le> length data
      then Inr (bytes_ulong (take 8 (drop (nat k) data)))
      else Inl OutOfBounds)"

text \<open>
  The loop of \<^verbatim>\<open>unpack\<close>, \<^verbatim>\<open>for (auto i = 0; i < h.num_arrays; ++i)\<close>: \<^verbatim>\<open>h\<close> is a
  reference into \<^verbatim>\<open>data\<close>, so \<^verbatim>\<open>num_arrays\<close> is read at byte 24 at every test;
  \<^verbatim>\<open>array_offsets[i]\<close> is the two words at \<^verbatim>\<open>array_offsets_start + 16 * i\<close>; \<^verbatim>\<open>i\<close> is
  an \<^verbatim>\<open>int\<close>, converted to \<^verbatim>\<open>ulong\<close> for the test. An
  expression \<^verbatim>\<open>&data[k]\<close> is the address \<^verbatim>\<open>data.data() + k\<close> and reads nothing: the new
  range keeps the two indices as they are.
\<close>

function unpack_loop :: "bytes \<Rightarrow> cint \<Rightarrow> ByteRange list \<Rightarrow> error + ByteRange list" where
  "unpack_loop data i r =
     (case read_ulong data 24 of
        Inl e \<Rightarrow> Inl e
      | Inr h_num_arrays \<Rightarrow>
          if scast i < h_num_arrays then
            (case read_ulong data (int array_offsets_start + int array_offset_size * sint i) of
               Inl e \<Rightarrow> Inl e
             | Inr b \<Rightarrow>
            (case read_ulong data (int array_offsets_start + int array_offset_size * sint i + 8) of
               Inl e \<Rightarrow> Inl e
             | Inr e \<Rightarrow>
                 if i = INT_MAX then Inl SignedOverflow
                 else unpack_loop data (i + 1) (r @ [\<lparr>range_begin = b, range_end = e\<rparr>])))
          else Inr r)"
  by pat_completeness auto
text \<open>
  \<^verbatim>\<open>BfastRawData::unpack\<close>; the fields of the header are read where they are used. The
  parameter \<^verbatim>\<open>data\<close> is passed by value, so the ranges returned point into a copy of the
  caller's vector that is gone when the function has returned; the model keeps their
  indices, to be read against the bytes of the stream.
\<close>

definition unpack :: "bytes \<Rightarrow> error + ByteRange list" where
  "unpack data =
     (case read_ulong data 0 of
        Inl e \<Rightarrow> Inl e
      | Inr h_magic \<Rightarrow>
          if h_magic \<noteq> MAGIC then Inl InvalidMagic
          else
            (case read_ulong data 16 of
               Inl e \<Rightarrow> Inl e
             | Inr h_data_end \<Rightarrow>
            (case read_ulong data 8 of
               Inl e \<Rightarrow> Inl e
             | Inr h_data_start \<Rightarrow>
                 if h_data_end < h_data_start then Inl InconsistentBounds
                 else unpack_loop data 0 [])))"

text \<open>
  \<^verbatim>\<open>ByteRange::to_string\<close>, \<^verbatim>\<open>string(begin(), end())\<close>, for a range into the stream
  \<^verbatim>\<open>data\<close>: the bytes from the first index up to the second, undefined when the two do
  not delimit a part of the vector.
\<close>

definition to_string :: "bytes \<Rightarrow> ByteRange \<Rightarrow> error + bytes" where
  "to_string data r =
     (if range_begin r \<le> range_end r \<and> unat (range_end r) \<le> length data
      then Inr (take (unat (range_end r) - unat (range_begin r)) (drop (unat (range_begin r)) data))
      else Inl OutOfBounds)"

section \<open>Auxiliary notions\<close>

text \<open>
  The number of zero bytes that \<^verbatim>\<open>output_padding\<close> writes when it starts at \<open>c\<close>.
\<close>

definition pad :: "cint \<Rightarrow> nat" where
  "pad c = (64 - unat c mod 64) mod 64"

text \<open>The range that the loop of \<^verbatim>\<open>unpack\<close> makes of the entry \<open>i\<close> of the offset table.\<close>

definition entry_range :: "bytes \<Rightarrow> nat \<Rightarrow> ByteRange" where
  "entry_range data i =
     \<lparr>range_begin = bytes_ulong (take 8 (drop (64 + 16 * i) data)),
      range_end = bytes_ulong (take 8 (drop (64 + 16 * i + 8) data))\<rparr>"

section \<open>Termination of the loops\<close>

lemma is_aligned_take_bit: "is_aligned n \<longleftrightarrow> take_bit 6 n = 0"
  by (simp add: is_aligned_def alignment_def take_bit_eq_mod)

lemma take_bit_scast_cint: "take_bit 6 (scast (c :: cint) :: size_t) = ucast (take_bit 6 c)"
  by (rule bit_word_eqI) (auto simp add: bit_simps)

lemma is_aligned_scast: "is_aligned (scast (c :: cint)) \<longleftrightarrow> unat c mod 64 = 0"
proof -
  have "unat (ucast (take_bit 6 c) :: size_t) = take_bit 64 (unat (take_bit 6 c))"
    by (simp add: unsigned_ucast_eq)
  also have "\<dots> = take_bit 6 (unat c)"
    by (simp add: unsigned_take_bit_eq min_def)
  finally have "unat (ucast (take_bit 6 c) :: size_t) = unat c mod 64"
    by (simp add: take_bit_eq_mod)
  moreover have "is_aligned (scast c) \<longleftrightarrow> unat (ucast (take_bit 6 c) :: size_t) = 0"
    by (simp add: is_aligned_take_bit take_bit_scast_cint unat_eq_0)
  ultimately show ?thesis by simp
qed

lemma unat_succ_cint: "unat (c + 1 :: cint) mod 64 = Suc (unat c) mod 64"
proof -
  have "unat (c + 1) = (unat c + 1) mod 2 ^ 32"
    by (simp add: unat_word_ariths)
  then have "unat (c + 1) mod 64 = (unat c + 1) mod 2 ^ 32 mod 64" by simp
  also have "\<dots> = (unat c + 1) mod 64"
    by (rule mod_mod_cancel) simp
  finally show ?thesis by simp
qed

text \<open>The padding loop stops when \<^verbatim>\<open>current\<close> reaches the next multiple of 64.\<close>

termination output_padding
proof (relation "measure (\<lambda>(mem, out, current). (64 - unat current mod 64) mod 64)")
  show "wf (measure (\<lambda>(mem, out, current). (64 - unat current mod 64) mod 64))"
    by simp
next
  fix mem :: bytes and out :: nat and current :: cint
  assume "\<not> is_aligned (scast current)"
  then have "unat current mod 64 \<noteq> 0"
    by (simp add: is_aligned_scast)
  moreover have "unat current mod 64 < 64"
    by simp
  ultimately have "(64 - Suc (unat current) mod 64) mod 64 < (64 - unat current mod 64) mod 64"
    by (simp add: mod_Suc) arith
  then show "((mem[out := 0], Suc out, current + 1), (mem, out, current))
      \<in> measure (\<lambda>(mem, out, current). (64 - unat current mod 64) mod 64)"
    by (simp add: unat_succ_cint)
qed

declare output_padding.simps [simp del]

lemma sint_succ_cint: "i \<noteq> INT_MAX \<Longrightarrow> sint (i + 1 :: cint) = sint i + 1"
proof -
  assume ne: "i \<noteq> INT_MAX"
  have up: "sint i < 2 ^ 31"
    using sint_lt [of i] by simp
  have lo: "- (2 ^ 31) \<le> sint i"
    using sint_ge [of i] by simp
  have "sint i \<noteq> 2 ^ 31 - 1"
  proof
    assume "sint i = 2 ^ 31 - 1"
    then have "sint i = sint INT_MAX"
      by (simp add: INT_MAX_def)
    then have "i = INT_MAX"
      by (rule signed_word_eqI)
    with ne show False
      by simp
  qed
  with up have "sint i + 1 < 2 ^ 31"
    by simp
  with lo show ?thesis
    by (simp add: sint_word_ariths signed_take_bit_int_eq_self)
qed

text \<open>The loop of \<^verbatim>\<open>unpack\<close> stops at the latest when the index is \<^verbatim>\<open>INT_MAX\<close>.\<close>

termination unpack_loop
proof (relation "measure (\<lambda>(data, i, r). nat (2 ^ 31 - sint i))")
  show "wf (measure (\<lambda>(data, i, r). nat (2 ^ 31 - sint i)))"
    by simp
next
  fix data :: bytes and i :: cint and r :: "ByteRange list"
  assume "i \<noteq> INT_MAX"
  then have "sint (i + 1) = sint i + 1"
    by (rule sint_succ_cint)
  moreover have "sint i < 2 ^ 31"
    using sint_lt [of i] by simp
  ultimately show "((data, i + 1, r @ [\<lparr>range_begin = b, range_end = e\<rparr>]), (data, i, r))
      \<in> measure (\<lambda>(data, i, r). nat (2 ^ 31 - sint i))" for b e
    by simp
qed

declare unpack_loop.simps [simp del]

section \<open>Properties\<close>

subsection \<open>The byte representation of a word\<close>

lemma bit_bytes_ulong:
  "bit (bytes_ulong bs) k \<longleftrightarrow> k < 64 \<and> k div 8 < length bs \<and> bit (bs ! (k div 8)) (k mod 8)"
proof (induction bs arbitrary: k)
  case Nil
  show ?case by (simp add: bytes_ulong_def)
next
  case (Cons b bs)
  have step: "bytes_ulong (b # bs) = ucast b OR push_bit 8 (bytes_ulong bs)"
    by (simp add: bytes_ulong_def)
  show ?case
  proof (cases "k < 8")
    case True
    then have "k div 8 = 0" "k mod 8 = k" by simp_all
    with True show ?thesis
      by (simp add: step bit_simps)
  next
    case False
    then have d: "k div 8 = Suc ((k - 8) div 8)" and m: "(k - 8) mod 8 = k mod 8"
      by (simp_all add: le_div_geq le_mod_geq)
    from False have nb: "\<not> bit b k"
      using bit_imp_le_length [of b k] by auto
    from False show ?thesis
      by (auto simp add: step bit_simps Cons.IH d m nb)
  qed
qed

lemma length_ulong_bytes: "length (ulong_bytes w) = 8"
  by (simp add: ulong_bytes_def)

lemma nth_ulong_bytes: "i < 8 \<Longrightarrow> ulong_bytes w ! i = ucast (drop_bit (8 * i) w)"
  by (simp add: ulong_bytes_def)

lemma bytes_ulong_bytes: "bytes_ulong (ulong_bytes w) = w"
proof (rule bit_word_eqI)
  fix k assume "k < LENGTH(64)"
  then have k: "k < 64" by simp
  then have "k div 8 < 8" by simp
  then show "bit (bytes_ulong (ulong_bytes w)) k = bit w k"
    using k by (simp add: bit_bytes_ulong length_ulong_bytes nth_ulong_bytes bit_simps)
qed

lemma ulong_bytes_ulong:
  assumes "length bs = 8"
  shows "ulong_bytes (bytes_ulong bs) = bs"
proof (rule nth_equalityI)
  show "length (ulong_bytes (bytes_ulong bs)) = length bs"
    using assms by (simp add: length_ulong_bytes)
next
  fix i assume "i < length (ulong_bytes (bytes_ulong bs))"
  then have i: "i < 8" by (simp add: length_ulong_bytes)
  show "ulong_bytes (bytes_ulong bs) ! i = bs ! i"
  proof (rule bit_word_eqI)
    fix k assume "k < LENGTH(8)"
    then have k: "k < 8" by simp
    have a: "(8 * i + k) div 8 = i" "(8 * i + k) mod 8 = k" "8 * i + k < 64"
      using i k by simp_all
    show "bit (ulong_bytes (bytes_ulong bs) ! i) k = bit (bs ! i) k"
      using i k assms by (simp add: nth_ulong_bytes bit_simps bit_bytes_ulong a)
  qed
qed

subsection \<open>The swapped magic number\<close>

lemma scast_cint_not_swapped: "(scast (v :: cint) :: ulong) \<noteq> 0xA5BF000000000000"
proof
  assume a: "(scast v :: ulong) = 0xA5BF000000000000"
  have "bit (scast v :: ulong) 63 = bit (scast v :: ulong) 62"
    by (simp add: bit_simps)
  moreover have "bit (0xA5BF000000000000 :: ulong) 63" by simp
  moreover have "\<not> bit (0xA5BF000000000000 :: ulong) 62" by simp
  ultimately show False using a by simp
qed

text \<open>
  C9. The specification gives \<^verbatim>\<open>SWAPPED_MAGIC\<close> the 64-bit value
  \<^verbatim>\<open>0xA5BF000000000000\<close>, \<^verbatim>\<open>0xA5BF\<close> shifted left by 48 bits. In the source the
  shift \<^verbatim>\<open>0xA5BF << 48\<close> is a shift of an \<^verbatim>\<open>int\<close> by more than its width: it has no
  defined value, and whatever value an \<^verbatim>\<open>int\<close> has, its conversion to \<^verbatim>\<open>ulong\<close> is not
  \<^verbatim>\<open>0xA5BF000000000000\<close>.
\<close>

theorem SWAPPED_MAGIC_not_shifted_ulong:
  "SWAPPED_MAGIC = None
   \<and> SWAPPED_MAGIC \<noteq> Some 0xA5BF000000000000
   \<and> SWAPPED_MAGIC \<noteq> Some (push_bit 48 0xA5BF)
   \<and> (\<forall>v :: cint. map_option scast (Some v) \<noteq> Some (0xA5BF000000000000 :: ulong))"
  by (simp add: SWAPPED_MAGIC_def shl_int_def scast_cint_not_swapped)

subsection \<open>The offset table\<close>

lemma compute_offsets_loop_spec:
  "compute_offsets_loop ranges n r = r @ spec_offsets n (map range_size ranges)"
  by (induction ranges arbitrary: n r) simp_all

lemma length_spec_offsets: "length (spec_offsets cursor Ls) = length Ls"
  by (induction Ls arbitrary: cursor) simp_all

lemma compute_data_start_spec: "compute_data_start ranges = spec_data_start (length ranges)"
  by (simp add: compute_data_start_def spec_data_start_def array_offset_size_def mult.commute)

lemma compute_offsets_spec:
  "compute_offsets ranges =
     spec_offsets (spec_data_start (length ranges)) (map range_size ranges)"
  by (simp add: compute_offsets_def compute_offsets_loop_spec compute_data_start_spec)

lemma length_compute_offsets: "length (compute_offsets ranges) = length ranges"
  by (simp add: compute_offsets_spec length_spec_offsets)

text \<open>
  C2. The offsets that \<^verbatim>\<open>compute_offsets\<close> returns are those of the builder as the
  specification words it: the cursor starts at
  \<open>aligned_value (aligned_value header_size + count * 16)\<close>, each length \<open>L\<close> emits
  the offset from the cursor to the cursor plus \<open>L\<close> and moves the cursor to the aligned
  value of that end; \<^verbatim>\<open>compute_needed_size\<close> is the data start when there is no range and
  the end of the last offset otherwise.
\<close>

theorem offset_table_builder:
  "compute_data_start ranges = spec_data_start (length ranges)
   \<and> compute_offsets ranges =
       spec_offsets (spec_data_start (length ranges)) (map range_size ranges)
   \<and> compute_needed_size ranges =
       (if length ranges = 0 then spec_data_start 0
        else offset_end (last (spec_offsets (spec_data_start (length ranges))
                                 (map range_size ranges))))"
proof (intro conjI)
  show "compute_data_start ranges = spec_data_start (length ranges)"
    by (rule compute_data_start_spec)
  show "compute_offsets ranges =
      spec_offsets (spec_data_start (length ranges)) (map range_size ranges)"
    by (rule compute_offsets_spec)
  show "compute_needed_size ranges =
      (if length ranges = 0 then spec_data_start 0
       else offset_end (last (spec_offsets (spec_data_start (length ranges))
                                (map range_size ranges))))"
  proof (cases ranges)
    case Nil
    then show ?thesis
      by (simp add: compute_needed_size_def compute_offsets_spec compute_data_start_spec)
  next
    case (Cons rng rest)
    then have "length (compute_offsets ranges) \<noteq> 0"
      by (simp add: length_compute_offsets)
    with Cons show ?thesis
      by (simp add: compute_needed_size_def Let_def compute_offsets_spec)
  qed
qed

subsection \<open>What the writer stores\<close>

lemma std_copy_Inr:
  "std_copy xs mem out = Inr (mem', out') \<Longrightarrow>
     out' = out + length xs \<and> (xs \<noteq> [] \<longrightarrow> out + length xs \<le> length mem) \<and>
     mem' = take out mem @ xs @ drop (out + length xs) mem"
proof (induction xs arbitrary: mem out)
  case Nil
  then show ?case by simp
next
  case (Cons b bs)
  from Cons.prems have lt: "out < length mem"
    by (simp split: if_splits)
  with Cons.prems have "std_copy bs (mem[out := b]) (Suc out) = Inr (mem', out')"
    by simp
  from Cons.IH [OF this]
  have o: "out' = Suc out + length bs"
    and le: "bs \<noteq> [] \<longrightarrow> Suc out + length bs \<le> length mem"
    and m: "mem' = take (Suc out) (mem[out := b]) @ bs @ drop (Suc out + length bs) (mem[out := b])"
    by simp_all
  have t: "take (Suc out) (mem[out := b]) = take out mem @ [b]"
    using lt by (simp add: take_Suc_conv_app_nth)
  have d: "drop (Suc out + length bs) (mem[out := b]) = drop (Suc out + length bs) mem"
    by simp
  show ?case
    using o le lt by (cases bs) (simp_all add: m t d)
qed

lemma std_copy_Inl: "std_copy xs mem out = Inl e \<Longrightarrow> e = OutOfBounds"
  by (induction xs arbitrary: mem out) (auto split: if_splits)

lemma pad_aligned: "is_aligned (scast c) \<Longrightarrow> pad c = 0"
  by (simp add: pad_def is_aligned_scast)

lemma pad_step: "\<not> is_aligned (scast c) \<Longrightarrow> pad c = Suc (pad (c + 1))"
proof -
  assume "\<not> is_aligned (scast c)"
  then have "unat c mod 64 \<noteq> 0"
    by (simp add: is_aligned_scast)
  moreover have "unat c mod 64 < 64"
    by simp
  ultimately show ?thesis
    unfolding pad_def unat_succ_cint by (simp add: mod_Suc) arith
qed

lemma output_padding_Inr:
  "output_padding mem out c = Inr (mem', out', c') \<Longrightarrow>
     out' = out + pad c \<and> (pad c \<noteq> 0 \<longrightarrow> out + pad c \<le> length mem) \<and>
     mem' = take out mem @ replicate (pad c) 0 @ drop (out + pad c) mem"
proof (induction mem out c rule: output_padding.induct)
  case (1 mem out current)
  show ?case
  proof (cases "is_aligned (scast current)")
    case True
    with "1.prems" show ?thesis
      by (simp add: output_padding.simps pad_aligned)
  next
    case False
    with "1.prems" have lt: "out < length mem" and ne: "current \<noteq> INT_MAX"
      by (auto simp add: output_padding.simps split: if_splits)
    with False "1.prems"
    have "output_padding (mem[out := 0]) (Suc out) (current + 1) = Inr (mem', out', c')"
      by (simp add: output_padding.simps)
    from "1.IH" [OF False lt ne this]
    have o: "out' = Suc out + pad (current + 1)"
      and le: "pad (current + 1) \<noteq> 0 \<longrightarrow> Suc out + pad (current + 1) \<le> length mem"
      and m: "mem' = take (Suc out) (mem[out := 0]) @ replicate (pad (current + 1)) 0
                 @ drop (Suc out + pad (current + 1)) (mem[out := 0])"
      by simp_all
    have t: "take (Suc out) (mem[out := 0]) = take out mem @ [0]"
      using lt by (simp add: take_Suc_conv_app_nth)
    have p: "pad current = Suc (pad (current + 1))"
      using False by (rule pad_step)
    show ?thesis
      using o le lt by (cases "pad (current + 1) = 0") (simp_all add: m t p replicate_append_same)
  qed
qed

lemma output_padding_Inl:
  "output_padding mem out c = Inl e \<Longrightarrow> e = OutOfBounds \<or> e = SignedOverflow"
proof (induction mem out c rule: output_padding.induct)
  case (1 mem out current)
  then show ?case
    by (subst (asm) (2) output_padding.simps) (auto split: if_splits)
qed

lemma std_copy_length: "std_copy xs mem out = Inr (mem', out') \<Longrightarrow> length mem' = length mem"
  by (cases "xs = []") (auto dest!: std_copy_Inr)

lemma std_copy_take: "std_copy xs mem out = Inr (mem', out') \<Longrightarrow> take out mem' = take out mem"
  by (cases "xs = []") (auto dest!: std_copy_Inr)

lemma output_padding_length:
  "output_padding mem out c = Inr (mem', out', c') \<Longrightarrow> length mem' = length mem"
  by (cases "pad c = 0") (auto dest!: output_padding_Inr)

lemma output_padding_take:
  "output_padding mem out c = Inr (mem', out', c') \<Longrightarrow> take out mem' = take out mem"
  by (cases "pad c = 0") (auto dest!: output_padding_Inr)

lemma copy_to_T_Inr:
  "copy_to_T x mem out c = Inr (mem', out', c') \<Longrightarrow>
     out' = out + length x \<and> (x \<noteq> [] \<longrightarrow> out + length x \<le> length mem) \<and>
     mem' = take out mem @ x @ drop (out + length x) mem \<and> c' = c + of_nat (length x)"
  by (auto simp add: copy_to_T_def split: sum.splits dest!: std_copy_Inr)

lemma copy_to_T_Inl: "copy_to_T x mem out c = Inl e \<Longrightarrow> e = OutOfBounds"
  by (auto simp add: copy_to_T_def split: sum.splits dest: std_copy_Inl)

lemma length_ArrayOffset_bytes: "length (ArrayOffset_bytes off) = 16"
  by (simp add: ArrayOffset_bytes_def length_ulong_bytes)

lemma length_Header_bytes: "length (Header_bytes h) = 32"
  by (simp add: Header_bytes_def length_ulong_bytes)

lemma length_offset_table: "length (concat (map ArrayOffset_bytes offs)) = 16 * length offs"
  by (induction offs) (simp_all add: length_ArrayOffset_bytes)

lemma copy_offsets_Inr:
  "copy_offsets offs mem out c = Inr (mem', out', c') \<Longrightarrow>
     out' = out + 16 * length offs \<and> (offs \<noteq> [] \<longrightarrow> out + 16 * length offs \<le> length mem) \<and>
     mem' = take out mem @ concat (map ArrayOffset_bytes offs) @ drop (out + 16 * length offs) mem"
proof (induction offs arbitrary: mem out c)
  case Nil
  then show ?case by simp
next
  case (Cons off offs)
  from Cons.prems obtain mem1 out1 c1
    where a: "copy_to_T (ArrayOffset_bytes off) mem out c = Inr (mem1, out1, c1)"
      and b: "copy_offsets offs mem1 out1 c1 = Inr (mem', out', c')"
    by (auto split: sum.splits)
  from copy_to_T_Inr [OF a]
  have o1: "out1 = out + 16" and le1: "out + 16 \<le> length mem"
    and m1: "mem1 = take out mem @ ArrayOffset_bytes off @ drop (out + 16) mem"
    by (simp_all add: length_ArrayOffset_bytes) (use length_ArrayOffset_bytes [of off] in auto)
  have l1: "length mem1 = length mem"
    using le1 by (simp add: m1 length_ArrayOffset_bytes)
  from Cons.IH [OF b]
  have o: "out' = out1 + 16 * length offs"
    and le: "offs \<noteq> [] \<longrightarrow> out1 + 16 * length offs \<le> length mem1"
    and m: "mem' = take out1 mem1 @ concat (map ArrayOffset_bytes offs)
               @ drop (out1 + 16 * length offs) mem1"
    by simp_all
  have t: "take out1 mem1 = take out mem @ ArrayOffset_bytes off"
    using le1 by (simp add: m1 o1 length_ArrayOffset_bytes)
  have d: "drop (out1 + 16 * length offs) mem1 = drop (out + 16 + 16 * length offs) mem"
    using le1 by (simp add: m1 o1 length_ArrayOffset_bytes add.commute)
  have mm: "mem' = take out mem @ ArrayOffset_bytes off @ concat (map ArrayOffset_bytes offs)
               @ drop (out + 16 + 16 * length offs) mem"
    by (simp only: m t d append_assoc)
  have oo: "out' = out + 16 + 16 * length offs"
    using o o1 by simp
  have bb: "out + 16 + 16 * length offs \<le> length mem"
    using le le1 l1 o1 by (cases offs) simp_all
  have "out + 16 * length (off # offs) = out + 16 + 16 * length offs"
    by simp
  then show ?case
    using mm oo bb by (simp add: add.assoc)
qed

lemma copy_offsets_Inl: "copy_offsets offs mem out c = Inl e \<Longrightarrow> e = OutOfBounds"
  by (induction offs arbitrary: mem out c) (auto split: sum.splits dest: copy_to_T_Inl)

lemma copy_arrays_Inr:
  "copy_arrays ranges i mem out c = Inr bs \<Longrightarrow> length bs = length mem \<and> take out bs = take out mem"
proof (induction ranges arbitrary: i mem out c)
  case Nil
  then show ?case by simp
next
  case (Cons rng ranges)
  from Cons.prems obtain mem1 out1 mem2 out2 c2
    where a: "std_copy rng mem out = Inr (mem1, out1)"
      and b: "output_padding mem1 out1 (c + ucast (range_size rng)) = Inr (mem2, out2, c2)"
      and r: "copy_arrays ranges (i + 1) mem2 out1 c2 = Inr bs"
    by (auto split: sum.splits if_splits)
  from Cons.IH [OF r] have l: "length bs = length mem2" and t: "take out1 bs = take out1 mem2"
    by simp_all
  have o1: "out \<le> out1"
    using std_copy_Inr [OF a] by simp
  have "take out bs = take out (take out1 bs)"
    using o1 by (simp add: min_def)
  also have "\<dots> = take out (take out1 mem1)"
    by (simp only: t output_padding_take [OF b])
  also have "\<dots> = take out mem1"
    using o1 by (simp add: min_def)
  also have "\<dots> = take out mem"
    by (rule std_copy_take [OF a])
  finally show ?case
    by (simp add: l output_padding_length [OF b] std_copy_length [OF a])
qed

lemma copy_arrays_Inl:
  "copy_arrays ranges i mem out c = Inl e \<Longrightarrow> e = OutOfBounds \<or> e = SignedOverflow"
  by (induction ranges arbitrary: i mem out c)
     (auto split: sum.splits if_splits dest: std_copy_Inl output_padding_Inl)

subsection \<open>Alignment\<close>

lemma aligned_value_aligned: "is_aligned (aligned_value n)"
proof -
  have "n div 64 * 64 + n mod 64 = n"
    by (rule div_mult_mod_eq)
  then have "n + 64 - n mod 64 = push_bit 6 (n div 64 + 1)"
    by (simp add: push_bit_eq_mult algebra_simps)
  then have "take_bit 6 (n + 64 - n mod 64) = 0"
    by (simp add: take_bit_push_bit)
  then show ?thesis
    by (simp add: aligned_value_def is_aligned_take_bit alignment_def take_bit_eq_mod)
qed

lemma is_aligned_0: "is_aligned 0"
  by (simp add: is_aligned_def)

lemma spec_data_start_aligned: "is_aligned (spec_data_start count)"
  by (simp add: spec_data_start_def aligned_value_aligned)

lemma spec_offsets_aligned:
  "is_aligned cursor \<Longrightarrow> i < length Ls \<Longrightarrow> is_aligned (offset_begin (spec_offsets cursor Ls ! i))"
proof (induction Ls arbitrary: cursor i)
  case Nil
  then show ?case by simp
next
  case (Cons L Ls)
  show ?case
  proof (cases i)
    case 0
    with Cons.prems show ?thesis by simp
  next
    case (Suc j)
    with Cons.prems have "j < length Ls" by simp
    from Cons.IH [OF aligned_value_aligned this] Suc show ?thesis by simp
  qed
qed

lemma compute_offsets_aligned:
  "i < length ranges \<Longrightarrow> is_aligned (offset_begin (compute_offsets ranges ! i))"
  by (simp add: compute_offsets_spec spec_offsets_aligned spec_data_start_aligned)

lemma fill_header_aligned: "is_aligned (data_start (fill_header (compute_offsets ranges)))"
proof (cases ranges)
  case Nil
  then show ?thesis
    by (simp add: fill_header_def length_compute_offsets is_aligned_0)
next
  case (Cons rng rest)
  then have ne: "compute_offsets ranges \<noteq> []"
    using length_compute_offsets [of ranges] by auto
  have "is_aligned (offset_begin (compute_offsets ranges ! 0))"
    using Cons by (intro compute_offsets_aligned) simp
  then show ?thesis
    using ne by (simp add: fill_header_def Let_def hd_conv_nth)
qed


subsection \<open>The layout of a packed stream\<close>

lemma pad_32: "pad 32 = 32"
  by (simp add: pad_def)

lemma copy_to_Inr:
  assumes ok: "copy_to ranges mem0 0 = Inr bs"
  shows "length bs = length mem0"
    and "32 \<le> length mem0"
    and "take 32 bs = Header_bytes (fill_header (compute_offsets ranges))"
    and "ranges \<noteq> [] \<Longrightarrow> 64 + 16 * length ranges \<le> length mem0"
    and "ranges \<noteq> [] \<Longrightarrow>
           take (16 * length ranges) (drop 64 bs) =
             concat (map ArrayOffset_bytes (compute_offsets ranges))"
proof -
  let ?offs = "compute_offsets ranges"
  let ?H = "Header_bytes (fill_header ?offs)"
  from ok obtain mem1 out1 c1 mem2 out2 c2
    where a: "copy_to_T ?H mem0 0 0 = Inr (mem1, out1, c1)"
      and b: "output_padding mem1 out1 c1 = Inr (mem2, out2, c2)"
      and rest: "if length ?offs = 0 then bs = mem2
                 else (case copy_offsets ?offs mem2 out2 c2 of
                         Inl e \<Rightarrow> Inl e
                       | Inr (mem3, out3, current3) \<Rightarrow>
                           (case output_padding mem3 out3 current3 of
                              Inl e \<Rightarrow> Inl e
                            | Inr (mem4, out4, current4) \<Rightarrow>
                                copy_arrays ranges 0 mem4 out4 current4)) = Inr bs"
    by (auto simp add: copy_to_def Let_def split: sum.splits if_splits)
  from copy_to_T_Inr [OF a]
  have o1: "out1 = 32" and c1: "c1 = 32" and le1: "32 \<le> length mem0"
    and m1: "mem1 = ?H @ drop 32 mem0"
    using length_Header_bytes [of "fill_header ?offs"] by auto
  have l1: "length mem1 = length mem0"
    using le1 by (simp add: m1 length_Header_bytes)
  from output_padding_Inr [OF b]
  have o2: "out2 = 64" and le2: "64 \<le> length mem1"
    and m2: "mem2 = take 32 mem1 @ replicate 32 0 @ drop 64 mem1"
    by (simp_all add: o1 c1 pad_32)
  have l2: "length mem2 = length mem0"
    using le2 l1 by (simp add: m2)
  have h2: "take 32 mem2 = ?H"
    using le2 by (simp add: m2 m1 length_Header_bytes)
  show "32 \<le> length mem0"
    by (rule le1)
  have main: "length bs = length mem0 \<and> take 32 bs = ?H \<and>
      (ranges \<noteq> [] \<longrightarrow> 64 + 16 * length ranges \<le> length mem0 \<and>
         take (16 * length ranges) (drop 64 bs) = concat (map ArrayOffset_bytes ?offs))"
  proof (cases "ranges = []")
    case True
    then have "length ?offs = 0"
      by (simp add: length_compute_offsets)
    with rest have "bs = mem2" by simp
    with True l2 h2 show ?thesis by simp
  next
    case False
    then have n0: "length ?offs \<noteq> 0" and ne: "?offs \<noteq> []"
      using length_compute_offsets [of ranges] by auto
    with rest obtain mem3 out3 c3 mem4 out4 c4
      where c: "copy_offsets ?offs mem2 out2 c2 = Inr (mem3, out3, c3)"
        and d: "output_padding mem3 out3 c3 = Inr (mem4, out4, c4)"
        and e: "copy_arrays ranges 0 mem4 out4 c4 = Inr bs"
      by (auto split: sum.splits)
    from copy_offsets_Inr [OF c] ne
    have o3: "out3 = 64 + 16 * length ranges"
      and le3: "64 + 16 * length ranges \<le> length mem2"
      and m3: "mem3 = take 64 mem2 @ concat (map ArrayOffset_bytes ?offs)
                 @ drop (64 + 16 * length ranges) mem2"
      by (simp_all add: o2 length_compute_offsets)
    have l3: "length mem3 = length mem0"
      using le3 l2 by (simp add: m3 length_offset_table length_compute_offsets)
    have t3: "take out3 mem3 = take 64 mem2 @ concat (map ArrayOffset_bytes ?offs)"
      using le3 by (simp add: m3 o3 length_offset_table length_compute_offsets)
    have o4: "out3 \<le> out4"
      using output_padding_Inr [OF d] by simp
    have l4: "length mem4 = length mem0"
      using output_padding_length [OF d] l3 by simp
    from copy_arrays_Inr [OF e] have lb: "length bs = length mem4"
      and tb: "take out4 bs = take out4 mem4"
      by simp_all
    have "take out3 bs = take out3 (take out4 bs)"
      using o4 by (simp add: min_def)
    also have "\<dots> = take out3 (take out4 mem4)"
      by (simp only: tb)
    also have "\<dots> = take out3 mem4"
      using o4 by (simp add: min_def)
    also have "\<dots> = take out3 mem3"
      by (rule output_padding_take [OF d])
    finally have t: "take out3 bs = take 64 mem2 @ concat (map ArrayOffset_bytes ?offs)"
      by (simp only: t3)
    have len64: "length (take 64 mem2) = 64"
      using le3 by simp
    have "take 32 bs = take 32 (take out3 bs)"
      by (simp add: o3 min_def)
    also have "\<dots> = take 32 (take 64 mem2)"
      using len64 by (simp only: t) simp
    also have "\<dots> = ?H"
      using h2 by (simp add: min_def)
    finally have hb: "take 32 bs = ?H" .
    have "take (16 * length ranges) (drop 64 bs) = drop 64 (take out3 bs)"
      by (simp add: o3 drop_take)
    also have "\<dots> = concat (map ArrayOffset_bytes ?offs)"
      using len64 by (simp only: t) simp
    finally have tab: "take (16 * length ranges) (drop 64 bs) = concat (map ArrayOffset_bytes ?offs)" .
    show ?thesis
      using lb l4 hb tab le3 l2 by simp
  qed
  from main show "length bs = length mem0"
    and "take 32 bs = ?H"
    and "ranges \<noteq> [] \<Longrightarrow> 64 + 16 * length ranges \<le> length mem0"
    and "ranges \<noteq> [] \<Longrightarrow>
           take (16 * length ranges) (drop 64 bs) = concat (map ArrayOffset_bytes ?offs)"
    by simp_all
qed

lemma drop_offset_table:
  "i \<le> length offs \<Longrightarrow>
     drop (16 * i) (concat (map ArrayOffset_bytes offs)) = concat (map ArrayOffset_bytes (drop i offs))"
proof (induction offs arbitrary: i)
  case Nil
  then show ?case by simp
next
  case (Cons off offs)
  show ?case
  proof (cases i)
    case 0
    then show ?thesis by simp
  next
    case (Suc j)
    with Cons.prems have "j \<le> length offs" by simp
    from Cons.IH [OF this] Suc show ?thesis
      by (simp add: length_ArrayOffset_bytes)
  qed
qed

lemma offset_table_entry:
  assumes "i < length offs"
  shows "take 16 (drop (16 * i) (concat (map ArrayOffset_bytes offs))) = ArrayOffset_bytes (offs ! i)"
proof -
  have "drop i offs = offs ! i # drop (Suc i) offs"
    using assms by (simp add: Cons_nth_drop_Suc)
  then show ?thesis
    using assms by (simp add: drop_offset_table length_ArrayOffset_bytes)
qed

lemma read_ulong_window:
  assumes "take m (drop k data) = xs" and "j + 8 \<le> m" and "k + m \<le> length data"
  shows "read_ulong data (int (k + j)) = Inr (bytes_ulong (take 8 (drop j xs)))"
proof -
  have "take 8 (drop j xs) = take 8 (drop j (take m (drop k data)))"
    by (simp add: assms(1))
  also have "\<dots> = take 8 (drop (k + j) data)"
    using assms(2) by (simp add: drop_take min_def add.commute)
  finally have w: "take 8 (drop j xs) = take 8 (drop (k + j) data)" .
  have "k + j + 8 \<le> length data"
    using assms(2,3) by simp
  then show ?thesis
    unfolding read_ulong_def by (simp add: w del: of_nat_add)
qed

lemma pack_layout:
  assumes ok: "pack ranges = Inr bs"
  shows "length bs = unat (compute_needed_size ranges)"
    and "read_ulong bs 0 = Inr MAGIC"
    and "read_ulong bs 8 = Inr (data_start (fill_header (compute_offsets ranges)))"
    and "read_ulong bs 16 = Inr (data_end (fill_header (compute_offsets ranges)))"
    and "read_ulong bs 24 = Inr (of_nat (length ranges))"
    and "i < length ranges \<Longrightarrow>
           read_ulong bs (64 + 16 * int i) = Inr (offset_begin (compute_offsets ranges ! i))"
    and "i < length ranges \<Longrightarrow>
           read_ulong bs (64 + 16 * int i + 8) = Inr (offset_end (compute_offsets ranges ! i))"
proof -
  let ?offs = "compute_offsets ranges"
  let ?h = "fill_header ?offs"
  from ok have c: "copy_to ranges (replicate (unat (compute_needed_size ranges)) 0) 0 = Inr bs"
    by (simp add: pack_def)
  from copy_to_Inr(1) [OF c] show len: "length bs = unat (compute_needed_size ranges)"
    by simp
  from copy_to_Inr(2) [OF c] len have l32: "0 + 32 \<le> length bs"
    by simp
  have hd: "take 32 (drop 0 bs) = Header_bytes ?h"
    using copy_to_Inr(3) [OF c] by simp
  have "read_ulong bs (int (0 + 0)) = Inr (bytes_ulong (take 8 (drop 0 (Header_bytes ?h))))"
    by (rule read_ulong_window [OF hd _ l32]) simp
  then show "read_ulong bs 0 = Inr MAGIC"
    by (simp add: Header_bytes_def length_ulong_bytes bytes_ulong_bytes fill_header_def Let_def)
  have "read_ulong bs (int (0 + 8)) = Inr (bytes_ulong (take 8 (drop 8 (Header_bytes ?h))))"
    by (rule read_ulong_window [OF hd _ l32]) simp
  then show "read_ulong bs 8 = Inr (data_start ?h)"
    by (simp add: Header_bytes_def length_ulong_bytes bytes_ulong_bytes)
  have "read_ulong bs (int (0 + 16)) = Inr (bytes_ulong (take 8 (drop 16 (Header_bytes ?h))))"
    by (rule read_ulong_window [OF hd _ l32]) simp
  then show "read_ulong bs 16 = Inr (data_end ?h)"
    by (simp add: Header_bytes_def length_ulong_bytes bytes_ulong_bytes)
  have "read_ulong bs (int (0 + 24)) = Inr (bytes_ulong (take 8 (drop 24 (Header_bytes ?h))))"
    by (rule read_ulong_window [OF hd _ l32]) simp
  then show "read_ulong bs 24 = Inr (of_nat (length ranges))"
    by (simp add: Header_bytes_def length_ulong_bytes bytes_ulong_bytes fill_header_def Let_def
        length_compute_offsets)
  {
    assume i: "i < length ranges"
    then have ne: "ranges \<noteq> []" by auto
    have tab: "take (16 * length ranges) (drop 64 bs) = concat (map ArrayOffset_bytes ?offs)"
      by (rule copy_to_Inr(5) [OF c ne])
    have fits: "64 + 16 * length ranges \<le> length bs"
      using copy_to_Inr(4) [OF c ne] len by simp
    have io: "i < length ?offs"
      using i by (simp add: length_compute_offsets)
    have ent: "take 16 (drop (16 * i) (concat (map ArrayOffset_bytes ?offs))) = ArrayOffset_bytes (?offs ! i)"
      by (rule offset_table_entry [OF io])
    have b: "take 8 (drop (16 * i) (concat (map ArrayOffset_bytes ?offs))) = ulong_bytes (offset_begin (?offs ! i))"
    proof -
      have "take 8 (drop (16 * i) (concat (map ArrayOffset_bytes ?offs)))
          = take 8 (take 16 (drop (16 * i) (concat (map ArrayOffset_bytes ?offs))))"
        by simp
      also have "\<dots> = take 8 (ArrayOffset_bytes (?offs ! i))"
        by (simp only: ent)
      finally show ?thesis
        by (simp add: ArrayOffset_bytes_def length_ulong_bytes)
    qed
    have e: "take 8 (drop (16 * i + 8) (concat (map ArrayOffset_bytes ?offs))) = ulong_bytes (offset_end (?offs ! i))"
    proof -
      have "take 8 (drop (16 * i + 8) (concat (map ArrayOffset_bytes ?offs)))
          = take 8 (drop 8 (take 16 (drop (16 * i) (concat (map ArrayOffset_bytes ?offs)))))"
        by (simp add: drop_take add.commute)
      also have "\<dots> = take 8 (drop 8 (ArrayOffset_bytes (?offs ! i)))"
        by (simp only: ent)
      finally show ?thesis
        by (simp add: ArrayOffset_bytes_def length_ulong_bytes)
    qed
    have "read_ulong bs (int (64 + 16 * i)) = Inr (bytes_ulong (take 8 (drop (16 * i) (concat (map ArrayOffset_bytes ?offs)))))"
      using i by (intro read_ulong_window [OF tab _ fits]) simp
    then have r1: "read_ulong bs (64 + 16 * int i) = Inr (offset_begin (?offs ! i))"
      by (simp add: b bytes_ulong_bytes)
    have "read_ulong bs (int (64 + (16 * i + 8))) = Inr (bytes_ulong (take 8 (drop (16 * i + 8) (concat (map ArrayOffset_bytes ?offs)))))"
      using i by (intro read_ulong_window [OF tab _ fits]) simp
    then have r2: "read_ulong bs (64 + 16 * int i + 8) = Inr (offset_end (?offs ! i))"
      by (simp add: e bytes_ulong_bytes add.assoc)
    note r1 r2
  }
  then show "i < length ranges \<Longrightarrow>
           read_ulong bs (64 + 16 * int i) = Inr (offset_begin (compute_offsets ranges ! i))"
    and "i < length ranges \<Longrightarrow>
           read_ulong bs (64 + 16 * int i + 8) = Inr (offset_end (compute_offsets ranges ! i))"
    by simp_all
qed

subsection \<open>Two packed streams\<close>

text \<open>The stream that \<^verbatim>\<open>pack\<close> makes of a range of one byte and a range of two.\<close>

lemma pack_two_ranges:
  "pack [[1], [2, 3]] =
     Inr (ulong_bytes MAGIC @ ulong_bytes 128 @ ulong_bytes 194 @ ulong_bytes 2 @ replicate 32 0
          @ ulong_bytes 128 @ ulong_bytes 129 @ ulong_bytes 192 @ ulong_bytes 194 @ replicate 32 0
          @ [1, 2, 3] @ replicate 63 0)"
  by code_simp

lemma compute_offsets_two_ranges:
  "compute_offsets [[1], [2, 3]] =
     [\<lparr>offset_begin = 128, offset_end = 129\<rparr>, \<lparr>offset_begin = 192, offset_end = 194\<rparr>]"
  by code_simp

subsection \<open>Alignment of the produced stream\<close>

text \<open>
  C7. In every stream that \<^verbatim>\<open>pack\<close> returns, the word at byte 8 is the \<^verbatim>\<open>data_start\<close>
  that \<^verbatim>\<open>copy_to\<close> filled out and is a multiple of 64; the word at byte 24 is the number
  of ranges; and for each of them the entry of the offset table, at
  \<^verbatim>\<open>array_offsets_start + 16 * i\<close>, begins with the \<^verbatim>\<open>_begin\<close> that
  \<^verbatim>\<open>compute_offsets\<close> gave, a multiple of 64.
\<close>

theorem packed_stream_alignment:
  assumes "pack ranges = Inr bs"
  shows "read_ulong bs 8 = Inr (data_start (fill_header (compute_offsets ranges)))
       \<and> is_aligned (data_start (fill_header (compute_offsets ranges)))
       \<and> read_ulong bs 24 = Inr (of_nat (length ranges))
       \<and> (\<forall>i<length ranges.
            read_ulong bs (int array_offsets_start + int array_offset_size * int i)
              = Inr (offset_begin (compute_offsets ranges ! i))
            \<and> is_aligned (offset_begin (compute_offsets ranges ! i)))"
  using pack_layout(3,5,6) [OF assms]
  by (simp add: fill_header_aligned compute_offsets_aligned array_offsets_start_def
      array_offset_size_def)

theorem packed_stream_alignment_witness:
  "pack [[1], [2, 3]] =
     Inr (ulong_bytes MAGIC @ ulong_bytes 128 @ ulong_bytes 194 @ ulong_bytes 2 @ replicate 32 0
          @ ulong_bytes 128 @ ulong_bytes 129 @ ulong_bytes 192 @ ulong_bytes 194 @ replicate 32 0
          @ [1, 2, 3] @ replicate 63 0)
   \<and> read_ulong (ulong_bytes MAGIC @ ulong_bytes 128 @ ulong_bytes 194 @ ulong_bytes 2 @ replicate 32 0
          @ ulong_bytes 128 @ ulong_bytes 129 @ ulong_bytes 192 @ ulong_bytes 194 @ replicate 32 0
          @ [1, 2, 3] @ replicate 63 0) 8 = Inr 128
   \<and> is_aligned 128
   \<and> read_ulong (ulong_bytes MAGIC @ ulong_bytes 128 @ ulong_bytes 194 @ ulong_bytes 2 @ replicate 32 0
          @ ulong_bytes 128 @ ulong_bytes 129 @ ulong_bytes 192 @ ulong_bytes 194 @ replicate 32 0
          @ [1, 2, 3] @ replicate 63 0) 80 = Inr 192
   \<and> is_aligned 192"
proof -
  let ?B = "ulong_bytes MAGIC @ ulong_bytes 128 @ ulong_bytes 194 @ ulong_bytes 2 @ replicate 32 0
          @ ulong_bytes 128 @ ulong_bytes 129 @ ulong_bytes 192 @ ulong_bytes 194 @ replicate 32 0
          @ [1, 2, 3] @ replicate 63 0"
  note w = packed_stream_alignment [OF pack_two_ranges]
  have h: "data_start (fill_header (compute_offsets [[1], [2, 3]])) = 128"
    by (simp add: compute_offsets_two_ranges fill_header_def)
  from w have "read_ulong ?B 8 = Inr 128 \<and> is_aligned 128"
    by (simp only: h)
  moreover have "(1::nat) < length [[1 :: byte], [2, 3]]"
    by simp
  from w [THEN conjunct2, THEN conjunct2, THEN conjunct2, rule_format, OF this]
  have "read_ulong ?B (int array_offsets_start + int array_offset_size * int 1)
              = Inr (offset_begin (compute_offsets [[1], [2, 3]] ! 1))
            \<and> is_aligned (offset_begin (compute_offsets [[1], [2, 3]] ! 1))" .
  then have "read_ulong ?B 80 = Inr 192 \<and> is_aligned 192"
    by (simp add: compute_offsets_two_ranges array_offsets_start_def array_offset_size_def)
  ultimately show ?thesis
    using pack_two_ranges by simp
qed

subsection \<open>The empty container\<close>

lemma read_ulong_append:
  "k + 8 \<le> length xs \<Longrightarrow> read_ulong (xs @ rest) (int k) = read_ulong xs (int k)"
  unfolding read_ulong_def by (simp del: of_nat_add)

lemma unpack_empty_header:
  "unpack (Header_bytes \<lparr>magic = MAGIC, data_start = 0, data_end = 0, num_arrays = 0\<rparr> @ rest) = Inr []"
proof -
  let ?H = "Header_bytes \<lparr>magic = MAGIC, data_start = 0, data_end = 0, num_arrays = 0\<rparr>"
  have l: "length ?H = 32"
    by (rule length_Header_bytes)
  have "read_ulong ?H (int 0) = Inr MAGIC" "read_ulong ?H (int 8) = Inr 0"
    "read_ulong ?H (int 16) = Inr 0" "read_ulong ?H (int 24) = Inr 0"
    by code_simp+
  then have r: "read_ulong (?H @ rest) 0 = Inr MAGIC" "read_ulong (?H @ rest) 8 = Inr 0"
    "read_ulong (?H @ rest) 16 = Inr 0" "read_ulong (?H @ rest) 24 = Inr 0"
    using read_ulong_append [of 0 ?H rest] read_ulong_append [of 8 ?H rest]
      read_ulong_append [of 16 ?H rest] read_ulong_append [of 24 ?H rest]
    by (simp_all add: l)
  have "unpack_loop (?H @ rest) 0 [] = Inr []"
    by (subst unpack_loop.simps) (simp add: r)
  then show ?thesis
    by (simp add: unpack_def r)
qed

text \<open>
  C8. \<^verbatim>\<open>BfastRawData::pack\<close> of no range returns 64 bytes, which is
  \<^verbatim>\<open>compute_data_start\<close> of no range: the header with \<^verbatim>\<open>num_arrays\<close>,
  \<^verbatim>\<open>data_start\<close> and \<^verbatim>\<open>data_end\<close> all 0, then 32 zero bytes. \<^verbatim>\<open>unpack\<close> of this stream
  returns no range, and so does \<^verbatim>\<open>unpack\<close> of this header followed by any bytes or
  by none: nothing behind the header is read.
\<close>

theorem pack_empty:
  "pack [] = Inr (Header_bytes \<lparr>magic = MAGIC, data_start = 0, data_end = 0, num_arrays = 0\<rparr>
                   @ replicate 32 0)
   \<and> length (Header_bytes \<lparr>magic = MAGIC, data_start = 0, data_end = 0, num_arrays = 0\<rparr>
                   @ replicate 32 0) = unat (compute_data_start [])
   \<and> unat (compute_data_start []) = 64
   \<and> unpack (Header_bytes \<lparr>magic = MAGIC, data_start = 0, data_end = 0, num_arrays = 0\<rparr>
                   @ replicate 32 0) = Inr []
   \<and> unpack (Header_bytes \<lparr>magic = MAGIC, data_start = 0, data_end = 0, num_arrays = 0\<rparr>
                   @ rest) = Inr []"
proof -
  have "pack [] = Inr (Header_bytes \<lparr>magic = MAGIC, data_start = 0, data_end = 0, num_arrays = 0\<rparr>
                   @ replicate 32 0)"
    by code_simp
  moreover have "length (Header_bytes \<lparr>magic = MAGIC, data_start = 0, data_end = 0, num_arrays = 0\<rparr>
                   @ replicate 32 (0 :: byte)) = unat (compute_data_start [])
      \<and> unat (compute_data_start []) = 64"
    by code_simp
  ultimately show ?thesis
    by (simp only: unpack_empty_header simp_thms)
qed

text \<open>
  \<^verbatim>\<open>BfastData::pack\<close> of no buffer goes through \<^verbatim>\<open>to_raw_data\<close>, which always puts
  the names buffer first: the stream has one (empty) range and 128 bytes.
\<close>

lemma BfastData_pack_empty:
  "BfastData_pack [] =
     Inr (Header_bytes \<lparr>magic = MAGIC, data_start = 128, data_end = 128, num_arrays = 1\<rparr>
          @ replicate 32 0
          @ ArrayOffset_bytes \<lparr>offset_begin = 128, offset_end = 128\<rparr> @ replicate 48 0)"
  by code_simp

subsection \<open>The round trip\<close>

text \<open>
  C1. The example of the specification, a buffer \<open>a\<close> of three bytes and a buffer
  \<open>bb\<close> of two: the offsets of the packed stream place the two buffers at 192 and at
  256, but their bytes lie at 133 and at 136, right behind the names, since the
  pointer that \<^verbatim>\<open>output_padding\<close> returns is dropped in the loop over the arrays. The
  ranges that \<^verbatim>\<open>unpack\<close> makes of this stream hold the names, three zero bytes and two
  zero bytes.
\<close>

theorem round_trip_loses_data:
  "BfastData_pack [\<lparr>buffer_name = ''a'', buffer_data = [1, 2, 3]\<rparr>,
                   \<lparr>buffer_name = ''bb'', buffer_data = [9, 9]\<rparr>] =
     Inr (ulong_bytes MAGIC @ ulong_bytes 128 @ ulong_bytes 258 @ ulong_bytes 3 @ replicate 32 0
          @ ulong_bytes 128 @ ulong_bytes 133 @ ulong_bytes 192 @ ulong_bytes 195
          @ ulong_bytes 256 @ ulong_bytes 258 @ replicate 16 0
          @ [97, 0, 98, 98, 0, 1, 2, 3, 9, 9] @ replicate 120 0)
   \<and> unpack (ulong_bytes MAGIC @ ulong_bytes 128 @ ulong_bytes 258 @ ulong_bytes 3 @ replicate 32 0
          @ ulong_bytes 128 @ ulong_bytes 133 @ ulong_bytes 192 @ ulong_bytes 195
          @ ulong_bytes 256 @ ulong_bytes 258 @ replicate 16 0
          @ [97, 0, 98, 98, 0, 1, 2, 3, 9, 9] @ replicate 120 0) =
     Inr [\<lparr>range_begin = 128, range_end = 133\<rparr>, \<lparr>range_begin = 192, range_end = 195\<rparr>,
          \<lparr>range_begin = 256, range_end = 258\<rparr>]
   \<and> map (to_string (ulong_bytes MAGIC @ ulong_bytes 128 @ ulong_bytes 258 @ ulong_bytes 3 @ replicate 32 0
          @ ulong_bytes 128 @ ulong_bytes 133 @ ulong_bytes 192 @ ulong_bytes 195
          @ ulong_bytes 256 @ ulong_bytes 258 @ replicate 16 0
          @ [97, 0, 98, 98, 0, 1, 2, 3, 9, 9] @ replicate 120 0))
       [\<lparr>range_begin = 128, range_end = 133\<rparr>, \<lparr>range_begin = 192, range_end = 195\<rparr>,
        \<lparr>range_begin = 256, range_end = 258\<rparr>] =
     [Inr [97, 0, 98, 98, 0], Inr [0, 0, 0], Inr [0, 0]]"
  by code_simp

subsection \<open>The padding between two buffers\<close>

text \<open>
  C5. For a range of one byte and a range of two, the first offset ends at 129 and
  the second begins at 192; the byte at 130 of the packed stream, between the two, is
  the last byte of the second range, not zero.
\<close>

theorem padding_holds_next_buffer:
  "pack [[1], [2, 3]] =
     Inr (ulong_bytes MAGIC @ ulong_bytes 128 @ ulong_bytes 194 @ ulong_bytes 2 @ replicate 32 0
          @ ulong_bytes 128 @ ulong_bytes 129 @ ulong_bytes 192 @ ulong_bytes 194 @ replicate 32 0
          @ [1, 2, 3] @ replicate 63 0)
   \<and> compute_offsets [[1], [2, 3]] =
     [\<lparr>offset_begin = 128, offset_end = 129\<rparr>, \<lparr>offset_begin = 192, offset_end = 194\<rparr>]
   \<and> (ulong_bytes MAGIC @ ulong_bytes 128 @ ulong_bytes 194 @ ulong_bytes 2 @ replicate 32 0
          @ ulong_bytes 128 @ ulong_bytes 129 @ ulong_bytes 192 @ ulong_bytes 194 @ replicate 32 0
          @ [1, 2, 3] @ replicate 63 0) ! 130 = 3"
proof -
  have "(ulong_bytes MAGIC @ ulong_bytes 128 @ ulong_bytes 194 @ ulong_bytes 2 @ replicate 32 0
          @ ulong_bytes 128 @ ulong_bytes 129 @ ulong_bytes 192 @ ulong_bytes 194 @ replicate 32 0
          @ [1, 2, 3] @ replicate 63 (0 :: byte)) ! 130 = 3"
    by code_simp
  then show ?thesis
    using pack_two_ranges compute_offsets_two_ranges by simp
qed

subsection \<open>The end of the stream\<close>

text \<open>
  C10. \<^verbatim>\<open>pack\<close> allocates the end of the last offset, 129 bytes for one range of one
  byte, but \<^verbatim>\<open>copy_to\<close> pads after the last array as after every other: the 63 zero
  bytes go past the end of the vector. The same happens for one buffer of one byte
  whose name has 63 characters.
\<close>

theorem pack_writes_past_needed_size:
  "compute_offsets [[1]] = [\<lparr>offset_begin = 128, offset_end = 129\<rparr>]
   \<and> compute_needed_size [[1]] = 129
   \<and> pack [[1]] = Inl OutOfBounds
   \<and> BfastData_pack [\<lparr>buffer_name = replicate 63 CHR ''n'', buffer_data = [1]\<rparr>] = Inl OutOfBounds"
  by code_simp

subsection \<open>The loop of unpack and the errors that can occur\<close>

lemma sint_of_nat_cint: "k < 2 ^ 31 \<Longrightarrow> sint (of_nat k :: cint) = int k"
  by (simp add: signed_of_nat signed_take_bit_int_eq_self)

lemma scast_of_nat_cint: "k < 2 ^ 31 \<Longrightarrow> (scast (of_nat k :: cint) :: ulong) = of_nat k"
  by (simp add: scast_eq sint_of_nat_cint)

lemma of_nat_less_ulong: "k < 2 ^ 31 \<Longrightarrow> (of_nat k :: ulong) < n \<longleftrightarrow> k < unat n"
  by (simp add: word_less_nat_alt unat_of_nat)

lemma of_nat_not_INT_MAX: "Suc k < 2 ^ 31 \<Longrightarrow> (of_nat k :: cint) \<noteq> INT_MAX"
proof
  assume k: "Suc k < 2 ^ 31" and e: "(of_nat k :: cint) = INT_MAX"
  from e have "unat (of_nat k :: cint) = unat INT_MAX"
    by simp
  with k show False
    by (simp add: unat_of_nat INT_MAX_def)
qed

lemma unpack_loop_entries:
  assumes n: "read_ulong data 24 = Inr n"
    and small: "unat n < 2 ^ 31"
    and fits: "64 + 16 * unat n \<le> length data"
  shows "k \<le> unat n \<Longrightarrow>
    unpack_loop data (of_nat k) r = Inr (r @ map (entry_range data) [k..<unat n])"
proof (induction "unat n - k" arbitrary: k r)
  case 0
  then have kn: "\<not> k < unat n" and k31: "k < 2 ^ 31"
    using small by simp_all
  have "\<not> scast (of_nat k :: cint) < n"
    using kn by (simp only: scast_of_nat_cint [OF k31] of_nat_less_ulong [OF k31]) simp
  moreover have "[k..<unat n] = []"
    using kn by simp
  ultimately show ?case
    by (simp add: unpack_loop.simps [of data "of_nat k"] n)
next
  case (Suc d)
  then have lt: "k < unat n" by simp
  with small have k31: "k < 2 ^ 31" and sk31: "Suc k < 2 ^ 31" by simp_all
  have test: "scast (of_nat k :: cint) < n"
    using lt k31 by (simp add: scast_of_nat_cint of_nat_less_ulong)
  have idx: "int array_offsets_start + int array_offset_size * sint (of_nat k :: cint) = int (64 + 16 * k)"
    using k31 by (simp add: sint_of_nat_cint array_offsets_start_def array_offset_size_def)
  have inb: "64 + 16 * k + 16 \<le> length data"
    using lt fits by simp
  have r1: "read_ulong data (int (64 + 16 * k)) = Inr (range_begin (entry_range data k))"
    using inb unfolding read_ulong_def by (simp add: entry_range_def del: of_nat_add)
  have r2: "read_ulong data (int (64 + 16 * k) + 8) = Inr (range_end (entry_range data k))"
  proof -
    have e: "int (64 + 16 * k) + 8 = int (72 + 16 * k)" by simp
    show ?thesis
      unfolding e read_ulong_def using inb by (simp add: entry_range_def del: of_nat_add)
  qed
  have ne: "(of_nat k :: cint) \<noteq> INT_MAX"
    using sk31 by (rule of_nat_not_INT_MAX)
  have "unpack_loop data (of_nat k) r =
      unpack_loop data (of_nat k + 1)
        (r @ [\<lparr>range_begin = range_begin (entry_range data k),
                range_end = range_end (entry_range data k)\<rparr>])"
    by (subst unpack_loop.simps) (simp only: n test idx r1 r2 ne sum.case if_True if_False)
  also have "\<dots> = unpack_loop data (of_nat (Suc k)) (r @ [entry_range data k])"
    by (simp add: add.commute entry_range_def)
  also have "\<dots> = Inr ((r @ [entry_range data k]) @ map (entry_range data) [Suc k..<unat n])"
    using Suc.hyps(2) lt by (intro Suc.hyps(1)) simp_all
  also have "\<dots> = Inr (r @ map (entry_range data) [k..<unat n])"
    using lt by (simp add: upt_conv_Cons)
  finally show ?case .
qed

lemma read_ulong_Inl: "read_ulong data k = Inl e \<Longrightarrow> e = OutOfBounds"
  by (simp add: read_ulong_def split: if_splits)

lemma unpack_loop_Inl:
  "unpack_loop data i r = Inl e \<Longrightarrow> e = OutOfBounds \<or> e = SignedOverflow"
proof (induction data i r rule: unpack_loop.induct)
  case (1 data i r)
  from "1.prems" show ?case
    by (subst (asm) unpack_loop.simps)
       (auto split: sum.splits if_splits dest: read_ulong_Inl "1.IH")
qed

lemma unpack_Inl:
  "unpack data = Inl e \<Longrightarrow>
     e = InvalidMagic \<or> e = InconsistentBounds \<or> e = OutOfBounds \<or> e = SignedOverflow"
  by (auto simp add: unpack_def split: sum.splits if_splits dest: read_ulong_Inl unpack_loop_Inl)

lemma pack_Inl: "pack ranges = Inl e \<Longrightarrow> e = OutOfBounds \<or> e = SignedOverflow"
  by (auto simp add: pack_def copy_to_def Let_def split: sum.splits if_splits prod.splits
      dest: copy_to_T_Inl output_padding_Inl copy_offsets_Inl copy_arrays_Inl)

subsection \<open>Validation of the header\<close>

text \<open>
  C6. \<^verbatim>\<open>unpack\<close> fails with \<open>InvalidMagic\<close> on every stream whose first eight bytes
  differ from the bytes of \<^verbatim>\<open>MAGIC\<close> in any place, in particular when they are the bytes
  of \<^verbatim>\<open>0xA5BF000000000000\<close>, the magic number with its bytes swapped: the stream is
  refused, not converted. On a stream whose magic number is right it fails with
  \<open>InconsistentBounds\<close> when \<^verbatim>\<open>data_end < data_start\<close>. (The magic number is tested
  first, so a stream with both faults fails with \<open>InvalidMagic\<close>.)
\<close>

theorem unpack_rejects_bad_header:
  "(8 \<le> length data \<and> take 8 data \<noteq> ulong_bytes MAGIC \<longrightarrow> unpack data = Inl InvalidMagic)
   \<and> (8 \<le> length data \<and> take 8 data = ulong_bytes 0xA5BF000000000000
        \<longrightarrow> unpack data = Inl InvalidMagic)
   \<and> (read_ulong data 0 = Inr MAGIC \<and> read_ulong data 8 = Inr h_data_start
        \<and> read_ulong data 16 = Inr h_data_end \<and> h_data_end < h_data_start
        \<longrightarrow> unpack data = Inl InconsistentBounds)"
proof (intro conjI impI)
  assume a: "8 \<le> length data \<and> take 8 data \<noteq> ulong_bytes MAGIC"
  then have r: "read_ulong data 0 = Inr (bytes_ulong (take 8 data))"
    by (simp add: read_ulong_def)
  have "bytes_ulong (take 8 data) \<noteq> MAGIC"
  proof
    assume "bytes_ulong (take 8 data) = MAGIC"
    then have "ulong_bytes (bytes_ulong (take 8 data)) = ulong_bytes MAGIC"
      by simp
    moreover have "length (take 8 data) = 8"
      using a by simp
    ultimately have "take 8 data = ulong_bytes MAGIC"
      by (simp add: ulong_bytes_ulong)
    with a show False by simp
  qed
  then show "unpack data = Inl InvalidMagic"
    by (simp add: unpack_def r)
next
  assume a: "8 \<le> length data \<and> take 8 data = ulong_bytes 0xA5BF000000000000"
  then have "read_ulong data 0 = Inr (bytes_ulong (ulong_bytes 0xA5BF000000000000))"
    by (simp add: read_ulong_def)
  then have "read_ulong data 0 = Inr 0xA5BF000000000000"
    by (simp only: bytes_ulong_bytes)
  then show "unpack data = Inl InvalidMagic"
    by (simp add: unpack_def MAGIC_def)
next
  assume "read_ulong data 0 = Inr MAGIC \<and> read_ulong data 8 = Inr h_data_start
        \<and> read_ulong data 16 = Inr h_data_end \<and> h_data_end < h_data_start"
  then show "unpack data = Inl InconsistentBounds"
    by (simp add: unpack_def)
qed

theorem unpack_rejects_bad_header_witness:
  "unpack (ulong_bytes 0xBEA5 @ replicate 56 0) = Inl InvalidMagic
   \<and> unpack (ulong_bytes 0xA5BF000000000000 @ replicate 56 0) = Inl InvalidMagic
   \<and> unpack (ulong_bytes MAGIC @ ulong_bytes 128 @ ulong_bytes 64 @ ulong_bytes 0 @ replicate 32 0)
       = Inl InconsistentBounds"
proof -
  have h1: "8 \<le> length (ulong_bytes 0xBEA5 @ replicate 56 0)
      \<and> take 8 (ulong_bytes 0xBEA5 @ replicate 56 0) \<noteq> ulong_bytes MAGIC"
    by code_simp
  have h2: "8 \<le> length (ulong_bytes 0xA5BF000000000000 @ replicate 56 0)
      \<and> take 8 (ulong_bytes 0xA5BF000000000000 @ replicate 56 0) = ulong_bytes 0xA5BF000000000000"
    by code_simp
  have h3: "read_ulong (ulong_bytes MAGIC @ ulong_bytes 128 @ ulong_bytes 64 @ ulong_bytes 0 @ replicate 32 0) 0 = Inr MAGIC
      \<and> read_ulong (ulong_bytes MAGIC @ ulong_bytes 128 @ ulong_bytes 64 @ ulong_bytes 0 @ replicate 32 0) 8 = Inr 128
      \<and> read_ulong (ulong_bytes MAGIC @ ulong_bytes 128 @ ulong_bytes 64 @ ulong_bytes 0 @ replicate 32 0) 16 = Inr 64
      \<and> (64 :: ulong) < 128"
    by code_simp
  note t = unpack_rejects_bad_header
  from t [THEN conjunct1, rule_format, OF h1]
    t [THEN conjunct2, THEN conjunct1, rule_format, OF h2]
    t [THEN conjunct2, THEN conjunct2, rule_format, OF h3]
  show ?thesis
    by (intro conjI)
qed

subsection \<open>Where the first range lies\<close>

lemma output_padding_current:
  "output_padding mem out c = Inr (mem', out', c') \<Longrightarrow> c' = c + of_nat (pad c)"
proof (induction mem out c rule: output_padding.induct)
  case (1 mem out current)
  show ?case
  proof (cases "is_aligned (scast current)")
    case True
    with "1.prems" show ?thesis
      by (simp add: output_padding.simps pad_aligned)
  next
    case False
    with "1.prems" have lt: "out < length mem" and ne: "current \<noteq> INT_MAX"
      by (auto simp add: output_padding.simps split: if_splits)
    with False "1.prems"
    have "output_padding (mem[out := 0]) (Suc out) (current + 1) = Inr (mem', out', c')"
      by (simp add: output_padding.simps)
    from "1.IH" [OF False lt ne this] have "c' = current + 1 + of_nat (pad (current + 1))" .
    then show ?thesis
      by (simp add: pad_step [OF False])
  qed
qed

lemma copy_offsets_current:
  "copy_offsets offs mem out c = Inr (mem', out', c') \<Longrightarrow> c' = c + of_nat (16 * length offs)"
proof (induction offs arbitrary: mem out c)
  case Nil
  then show ?case by simp
next
  case (Cons off offs)
  from Cons.prems obtain mem1 out1 c1
    where a: "copy_to_T (ArrayOffset_bytes off) mem out c = Inr (mem1, out1, c1)"
      and b: "copy_offsets offs mem1 out1 c1 = Inr (mem', out', c')"
    by (auto split: sum.splits)
  from copy_to_T_Inr [OF a] have "c1 = c + 16"
    by (simp add: length_ArrayOffset_bytes)
  with Cons.IH [OF b] show ?case
    by simp
qed

lemma unat_of_nat_cint_mod: "unat (of_nat k :: cint) mod 64 = k mod 64"
proof -
  have "unat (of_nat k :: cint) mod 64 = k mod 2 ^ 32 mod 64"
    by (simp add: unat_of_nat)
  also have "\<dots> = k mod 64"
    by (rule mod_mod_cancel) simp
  finally show ?thesis .
qed

lemma is_aligned_of_nat: "is_aligned (of_nat m) \<longleftrightarrow> m mod 64 = 0"
proof -
  have "unat (of_nat m :: size_t) mod 64 = m mod 2 ^ 64 mod 64"
    by (simp add: unat_of_nat)
  also have "\<dots> = m mod 64"
    by (rule mod_mod_cancel) simp
  finally have u: "unat (of_nat m :: size_t) mod 64 = m mod 64" .
  have "is_aligned (of_nat m) \<longleftrightarrow> unat ((of_nat m :: size_t) mod 64) = 0"
    by (simp add: is_aligned_def alignment_def unat_eq_0)
  also have "\<dots> \<longleftrightarrow> unat (of_nat m :: size_t) mod 64 = 0"
    by (simp add: unat_mod)
  finally show ?thesis
    by (simp add: u)
qed

lemma of_nat_mod_64: "(of_nat m :: size_t) mod 64 = of_nat (m mod 64)"
proof (rule word_unat_eq_iff [THEN iffD2])
  have "unat ((of_nat m :: size_t) mod 64) = m mod 2 ^ 64 mod 64"
    by (simp add: unat_mod unat_of_nat)
  also have "\<dots> = m mod 64"
    by (rule mod_mod_cancel) simp
  finally have l: "unat ((of_nat m :: size_t) mod 64) = m mod 64" .
  have "m mod 64 < 2 ^ 64"
    by (rule less_trans [of _ 64]) simp_all
  then have "unat (of_nat (m mod 64) :: size_t) = m mod 64"
    by (simp add: unat_of_nat)
  with l show "unat ((of_nat m :: size_t) mod 64) = unat (of_nat (m mod 64) :: size_t)"
    by simp
qed

lemma aligned_value_of_nat:
  "aligned_value (of_nat m) = of_nat (m + (64 - m mod 64) mod 64)"
proof (cases "m mod 64 = 0")
  case True
  then show ?thesis
    by (simp add: aligned_value_def is_aligned_of_nat)
next
  case False
  moreover have "m mod 64 < 64"
    by simp
  ultimately have e: "m + (64 - m mod 64) mod 64 = m + 64 - m mod 64"
    by simp
  have "aligned_value (of_nat m) = of_nat m + 64 - of_nat (m mod 64)"
    using False by (simp add: aligned_value_def is_aligned_of_nat alignment_def of_nat_mod_64)
  also have "\<dots> = of_nat (m + 64 - m mod 64)"
    by (simp add: of_nat_diff)
  finally show ?thesis
    by (simp only: e)
qed

lemma copy_arrays_first:
  assumes "copy_arrays (rng # rest) i mem out c = Inr bs"
  shows "take (length rng) (drop out bs) = rng"
    and "rng \<noteq> [] \<Longrightarrow> out + length rng \<le> length mem"
proof -
  from assms obtain mem1 out1 mem2 out2 c2
    where a: "std_copy rng mem out = Inr (mem1, out1)"
      and b: "output_padding mem1 out1 (c + ucast (range_size rng)) = Inr (mem2, out2, c2)"
      and r: "copy_arrays rest (i + 1) mem2 out1 c2 = Inr bs"
    by (auto split: sum.splits if_splits)
  from std_copy_Inr [OF a]
  have o1: "out1 = out + length rng"
    and le: "rng \<noteq> [] \<longrightarrow> out + length rng \<le> length mem"
    and m1: "mem1 = take out mem @ rng @ drop (out + length rng) mem"
    by simp_all
  from le show "rng \<noteq> [] \<Longrightarrow> out + length rng \<le> length mem"
    by simp
  show "take (length rng) (drop out bs) = rng"
  proof (cases "rng = []")
    case True
    then show ?thesis by simp
  next
    case False
    with le have b1: "out + length rng \<le> length mem" by simp
    have "take out1 bs = take out1 mem2"
      using copy_arrays_Inr [OF r] by simp
    also have "\<dots> = take out1 mem1"
      by (rule output_padding_take [OF b])
    also have "\<dots> = take out mem @ rng"
      using b1 by (simp add: m1 o1)
    finally have t: "take (out + length rng) bs = take out mem @ rng"
      by (simp only: o1)
    have "take (length rng) (drop out bs) = drop out (take (out + length rng) bs)"
      by (simp add: drop_take)
    also have "\<dots> = rng"
      using b1 by (simp only: t) simp
    finally show ?thesis .
  qed
qed

lemma aligned_value_header_size: "aligned_value (of_nat header_size) = 64"
  by code_simp

lemma compute_data_start_of_nat:
  "compute_data_start ranges =
     of_nat (64 + 16 * length ranges + (64 - (64 + 16 * length ranges) mod 64) mod 64)"
proof -
  have "compute_data_start ranges = aligned_value (of_nat (64 + 16 * length ranges))"
    by (simp add: compute_data_start_def aligned_value_header_size array_offset_size_def)
  then show ?thesis
    by (simp only: aligned_value_of_nat)
qed

lemma copy_to_first_range:
  assumes ok: "copy_to (r0 # rest) mem0 0 = Inr bs"
  shows "\<exists>p. of_nat p = compute_data_start (r0 # rest) \<and> p + length r0 \<le> length mem0
             \<and> take (length r0) (drop p bs) = r0"
proof -
  let ?ranges = "r0 # rest"
  let ?offs = "compute_offsets ?ranges"
  let ?H = "Header_bytes (fill_header ?offs)"
  let ?m = "64 + 16 * length ?ranges"
  have n0: "length ?offs \<noteq> 0" and ne: "?offs \<noteq> []" and ln: "length ?offs = length ?ranges"
    using length_compute_offsets [of ?ranges] by auto
  with ok obtain mem1 out1 c1 mem2 out2 c2 mem3 out3 c3 mem4 out4 c4
    where a: "copy_to_T ?H mem0 0 0 = Inr (mem1, out1, c1)"
      and b: "output_padding mem1 out1 c1 = Inr (mem2, out2, c2)"
      and c: "copy_offsets ?offs mem2 out2 c2 = Inr (mem3, out3, c3)"
      and d: "output_padding mem3 out3 c3 = Inr (mem4, out4, c4)"
      and e: "copy_arrays ?ranges 0 mem4 out4 c4 = Inr bs"
    by (auto simp add: copy_to_def Let_def split: sum.splits if_splits)
  from copy_to_T_Inr [OF a]
  have o1: "out1 = 32" and c1: "c1 = 32" and le1: "32 \<le> length mem0"
    and m1: "mem1 = ?H @ drop 32 mem0"
    using length_Header_bytes [of "fill_header ?offs"] by auto
  have l1: "length mem1 = length mem0"
    using le1 by (simp add: m1 length_Header_bytes)
  from output_padding_Inr [OF b] have o2: "out2 = 64"
    by (simp add: o1 c1 pad_32)
  from output_padding_current [OF b] have c2: "c2 = 64"
    by (simp add: c1 pad_32)
  have l2: "length mem2 = length mem0"
    using output_padding_length [OF b] l1 by simp
  from copy_offsets_Inr [OF c] ne
  have o3: "out3 = ?m" and le3: "?m \<le> length mem2"
    by (simp_all add: o2 ln)
  have l3: "length mem3 = length mem0"
    using copy_offsets_Inr [OF c] le3 l2
    by (simp add: o2 ln length_offset_table)
  from copy_offsets_current [OF c] have c3: "c3 = of_nat ?m"
    by (simp add: c2 ln)
  have p3: "pad c3 = (64 - ?m mod 64) mod 64"
    unfolding pad_def c3 by (simp only: unat_of_nat_cint_mod)
  note d4 = output_padding_Inr [OF d]
  from d4 [THEN conjunct1] have o4: "out4 = ?m + (64 - ?m mod 64) mod 64"
    by (simp only: o3 p3)
  from d4 [THEN conjunct2, THEN conjunct1]
  have le4: "pad c3 \<noteq> 0 \<longrightarrow> out3 + pad c3 \<le> length mem3" .
  have o4': "out4 = out3 + pad c3"
    by (rule d4 [THEN conjunct1])
  have b4: "out4 \<le> length mem0"
  proof (cases "pad c3 = 0")
    case True
    with le3 l2 show ?thesis
      by (simp add: o4' o3)
  next
    case False
    with le4 l3 show ?thesis
      by (simp add: o4')
  qed
  have l4: "length mem4 = length mem0"
    using output_padding_length [OF d] l3 by simp
  have w: "of_nat out4 = compute_data_start ?ranges"
    by (simp only: o4 compute_data_start_of_nat)
  have t: "take (length r0) (drop out4 bs) = r0"
    by (rule copy_arrays_first(1) [OF e])
  have "out4 + length r0 \<le> length mem0"
  proof (cases "r0 = []")
    case True
    with b4 show ?thesis by simp
  next
    case False
    from copy_arrays_first(2) [OF e False] l4 show ?thesis by simp
  qed
  with w t show ?thesis
    by blast
qed

lemma compute_offsets_first:
  "compute_offsets (r0 # rest) ! 0 =
     \<lparr>offset_begin = compute_data_start (r0 # rest),
      offset_end = compute_data_start (r0 # rest) + of_nat (length r0)\<rparr>"
  by (simp add: compute_offsets_spec compute_data_start_spec range_size_def)

lemma pack_first_range:
  assumes ok: "pack (r0 # rest) = Inr bs"
  shows "read_ulong bs 64 = Inr (compute_data_start (r0 # rest))"
    and "read_ulong bs 72 = Inr (compute_data_start (r0 # rest) + of_nat (length r0))"
    and "to_string bs \<lparr>range_begin = compute_data_start (r0 # rest),
                        range_end = compute_data_start (r0 # rest) + of_nat (length r0)\<rparr> = Inr r0"
proof -
  let ?ds = "compute_data_start (r0 # rest)"
  have i0: "0 < length (r0 # rest)"
    by simp
  from pack_layout(6) [OF ok i0] show "read_ulong bs 64 = Inr ?ds"
    by (simp add: compute_offsets_first)
  from pack_layout(7) [OF ok i0] show "read_ulong bs 72 = Inr (?ds + of_nat (length r0))"
    by (simp add: compute_offsets_first)
  from ok have c: "copy_to (r0 # rest) (replicate (unat (compute_needed_size (r0 # rest))) 0) 0 = Inr bs"
    by (simp add: pack_def)
  have len: "length bs = unat (compute_needed_size (r0 # rest))"
    by (rule pack_layout(1) [OF ok])
  from copy_to_first_range [OF c] obtain p
    where w: "of_nat p = ?ds" and b: "p + length r0 \<le> length bs"
      and t: "take (length r0) (drop p bs) = r0"
    using len by auto
  have "length bs < 2 ^ 64"
    using unsigned_less [of "compute_needed_size (r0 # rest)", where ?'a = nat] by (simp add: len)
  with b have small: "p + length r0 < 2 ^ 64"
    by simp
  then have "p < 2 ^ LENGTH(64)"
    by simp
  from of_nat_inverse [OF w this] have ub: "unat ?ds = p" .
  have "?ds + of_nat (length r0) = of_nat (p + length r0)"
    by (simp add: w [symmetric])
  moreover have "p + length r0 < 2 ^ LENGTH(64)"
    using small by simp
  ultimately have ue: "unat (?ds + of_nat (length r0)) = p + length r0"
    by (simp only: unat_of_nat) simp
  have le: "?ds \<le> ?ds + of_nat (length r0)"
    by (simp add: word_le_nat_alt ub ue)
  show "to_string bs \<lparr>range_begin = ?ds, range_end = ?ds + of_nat (length r0)\<rparr> = Inr r0"
    unfolding to_string_def using le b by (simp add: ub ue t)
qed

subsection \<open>Names with a null byte\<close>

text \<open>
  C4, as the specification states it, fails: the name \<open>a\<close>, null, \<open>b\<close> is packed
  like any other, the null byte going into the names buffer.
\<close>

theorem pack_accepts_embedded_null:
  "CHR 0x00 \<in> set [CHR ''a'', CHR 0x00, CHR ''b'']
   \<and> BfastData_pack [\<lparr>buffer_name = [CHR ''a'', CHR 0x00, CHR ''b''], buffer_data = []\<rparr>] =
       Inr (ulong_bytes MAGIC @ ulong_bytes 128 @ ulong_bytes 192 @ ulong_bytes 2 @ replicate 32 0
            @ ulong_bytes 128 @ ulong_bytes 132 @ ulong_bytes 192 @ ulong_bytes 192 @ replicate 32 0
            @ [97, 0, 98, 0] @ replicate 60 0)
   \<and> BfastData_pack [\<lparr>buffer_name = [CHR ''a'', CHR 0x00, CHR ''b''], buffer_data = []\<rparr>]
       \<noteq> Inl EmbeddedNullInName"
  by code_simp

text \<open>
  C4, amended. \<^verbatim>\<open>BfastData::pack\<close> validates no name: for no list of buffers, with or
  without a null byte in a name, does it fail with \<open>EmbeddedNullInName\<close>, before or
  after the allocation. What it returns is \<^verbatim>\<open>BfastRawData::pack\<close> of the names buffer,
  every name as it is followed by a null byte, and then the data of the buffers. In
  every stream it returns, \<^verbatim>\<open>num_arrays\<close> is the number of buffers plus one, the first
  entry of the offset table runs from the data start over the length of the names
  buffer, and the bytes of the stream in this range are the names buffer, null bytes of
  the names included.
\<close>

theorem pack_never_checks_names:
  "BfastData_pack buffers \<noteq> Inl EmbeddedNullInName
   \<and> to_raw_data buffers =
       concat (map (\<lambda>b. map of_char (buffer_name b) @ [0]) buffers) # map buffer_data buffers
   \<and> BfastData_pack buffers =
       pack (concat (map (\<lambda>b. map of_char (buffer_name b) @ [0]) buffers) # map buffer_data buffers)
   \<and> (BfastData_pack buffers = Inr bs \<longrightarrow>
         read_ulong bs 24 = Inr (of_nat (Suc (length buffers)))
       \<and> read_ulong bs 64 = Inr (compute_data_start (to_raw_data buffers))
       \<and> read_ulong bs 72 =
           Inr (compute_data_start (to_raw_data buffers)
                + of_nat (length (concat (map (\<lambda>b. map of_char (buffer_name b) @ [0 :: byte]) buffers))))
       \<and> to_string bs
           \<lparr>range_begin = compute_data_start (to_raw_data buffers),
            range_end = compute_data_start (to_raw_data buffers)
                + of_nat (length (concat (map (\<lambda>b. map of_char (buffer_name b) @ [0 :: byte]) buffers)))\<rparr>
           = Inr (concat (map (\<lambda>b. map of_char (buffer_name b) @ [0]) buffers)))"
proof (intro conjI impI)
  let ?N = "concat (map (\<lambda>b. map of_char (buffer_name b) @ [0 :: byte]) buffers)"
  have raw: "to_raw_data buffers = ?N # map buffer_data buffers"
    by (simp add: to_raw_data_def)
  show "BfastData_pack buffers \<noteq> Inl EmbeddedNullInName"
    using pack_Inl [of "to_raw_data buffers" EmbeddedNullInName]
    by (auto simp add: BfastData_pack_def)
  show "to_raw_data buffers = ?N # map buffer_data buffers"
    by (rule raw)
  show "BfastData_pack buffers = pack (?N # map buffer_data buffers)"
    by (simp only: BfastData_pack_def raw)
  assume "BfastData_pack buffers = Inr bs"
  then have ok: "pack (?N # map buffer_data buffers) = Inr bs"
    by (simp only: BfastData_pack_def raw)
  from pack_layout(5) [OF ok] show "read_ulong bs 24 = Inr (of_nat (Suc (length buffers)))"
    by simp
  show "read_ulong bs 64 = Inr (compute_data_start (to_raw_data buffers))"
    using pack_first_range(1) [OF ok] by (simp add: raw)
  show "read_ulong bs 72 = Inr (compute_data_start (to_raw_data buffers) + of_nat (length ?N))"
    using pack_first_range(2) [OF ok] by (simp add: raw)
  show "to_string bs
           \<lparr>range_begin = compute_data_start (to_raw_data buffers),
            range_end = compute_data_start (to_raw_data buffers) + of_nat (length ?N)\<rparr>
           = Inr ?N"
    using pack_first_range(3) [OF ok] by (simp add: raw)
qed

theorem pack_never_checks_names_witness:
  "BfastData_pack [\<lparr>buffer_name = [CHR ''x'', CHR 0x00, CHR ''y''], buffer_data = []\<rparr>] =
     Inr (ulong_bytes MAGIC @ ulong_bytes 128 @ ulong_bytes 192 @ ulong_bytes 2 @ replicate 32 0
          @ ulong_bytes 128 @ ulong_bytes 132 @ ulong_bytes 192 @ ulong_bytes 192 @ replicate 32 0
          @ [120, 0, 121, 0] @ replicate 60 0)
   \<and> read_ulong (ulong_bytes MAGIC @ ulong_bytes 128 @ ulong_bytes 192 @ ulong_bytes 2 @ replicate 32 0
          @ ulong_bytes 128 @ ulong_bytes 132 @ ulong_bytes 192 @ ulong_bytes 192 @ replicate 32 0
          @ [120, 0, 121, 0] @ replicate 60 0) 24 = Inr 2
   \<and> read_ulong (ulong_bytes MAGIC @ ulong_bytes 128 @ ulong_bytes 192 @ ulong_bytes 2 @ replicate 32 0
          @ ulong_bytes 128 @ ulong_bytes 132 @ ulong_bytes 192 @ ulong_bytes 192 @ replicate 32 0
          @ [120, 0, 121, 0] @ replicate 60 0) 64 = Inr 128
   \<and> read_ulong (ulong_bytes MAGIC @ ulong_bytes 128 @ ulong_bytes 192 @ ulong_bytes 2 @ replicate 32 0
          @ ulong_bytes 128 @ ulong_bytes 132 @ ulong_bytes 192 @ ulong_bytes 192 @ replicate 32 0
          @ [120, 0, 121, 0] @ replicate 60 0) 72 = Inr 132
   \<and> to_string (ulong_bytes MAGIC @ ulong_bytes 128 @ ulong_bytes 192 @ ulong_bytes 2 @ replicate 32 0
          @ ulong_bytes 128 @ ulong_bytes 132 @ ulong_bytes 192 @ ulong_bytes 192 @ replicate 32 0
          @ [120, 0, 121, 0] @ replicate 60 0) \<lparr>range_begin = 128, range_end = 132\<rparr>
       = Inr [120, 0, 121, 0]"
proof -
  let ?X = "[\<lparr>buffer_name = [CHR ''x'', CHR 0x00, CHR ''y''], buffer_data = []\<rparr>]"
  let ?B = "ulong_bytes MAGIC @ ulong_bytes 128 @ ulong_bytes 192 @ ulong_bytes 2 @ replicate 32 0
          @ ulong_bytes 128 @ ulong_bytes 132 @ ulong_bytes 192 @ ulong_bytes 192 @ replicate 32 0
          @ [120, 0, 121, 0] @ replicate 60 (0 :: byte)"
  have p: "BfastData_pack ?X = Inr ?B"
    by code_simp
  have ds: "compute_data_start (to_raw_data ?X) = 128"
    by code_simp
  have n: "concat (map (\<lambda>b. map of_char (buffer_name b) @ [0]) ?X) = [120, 0, 121, 0 :: byte]"
    by code_simp
  note t = pack_never_checks_names [of ?X ?B, THEN conjunct2, THEN conjunct2, THEN conjunct2,
      rule_format, OF p]
  from t have "read_ulong ?B 24 = Inr 2 \<and> read_ulong ?B 64 = Inr 128
      \<and> read_ulong ?B 72 = Inr 132
      \<and> to_string ?B \<lparr>range_begin = 128, range_end = 132\<rparr> = Inr [120, 0, 121, 0]"
    by (simp only: ds n) simp
  with p show ?thesis
    by (intro conjI) simp_all
qed

subsection \<open>The offsets that unpack reads\<close>

text \<open>
  C3, as the specification states it, fails: a stream of 80 bytes whose only offset
  entry begins at 200 and ends at 100 is unpacked into that range.
\<close>

theorem unpack_accepts_bad_offsets:
  "length (ulong_bytes MAGIC @ ulong_bytes 0 @ ulong_bytes 0 @ ulong_bytes 1 @ replicate 32 0
           @ ulong_bytes 200 @ ulong_bytes 100) = 80
   \<and> unpack (ulong_bytes MAGIC @ ulong_bytes 0 @ ulong_bytes 0 @ ulong_bytes 1 @ replicate 32 0
           @ ulong_bytes 200 @ ulong_bytes 100) = Inr [\<lparr>range_begin = 200, range_end = 100\<rparr>]
   \<and> unpack (ulong_bytes MAGIC @ ulong_bytes 0 @ ulong_bytes 0 @ ulong_bytes 1 @ replicate 32 0
           @ ulong_bytes 200 @ ulong_bytes 100) \<noteq> Inl TruncatedStream"
  by code_simp

text \<open>
  C3, amended. \<^verbatim>\<open>unpack\<close> validates no offset: when the header is valid and the
  \<^verbatim>\<open>num_arrays\<close> entries of the offset table lie inside the stream (and their number
  fits the \<^verbatim>\<open>int\<close> index), it returns one range for each entry, with the begin and the
  end as the table has them, whatever these are; and on no stream does it fail with
  \<open>TruncatedStream\<close>.
\<close>

theorem unpack_keeps_offsets_unchecked:
  assumes "read_ulong data 0 = Inr MAGIC"
    and "read_ulong data 8 = Inr h_data_start"
    and "read_ulong data 16 = Inr h_data_end"
    and "h_data_start \<le> h_data_end"
    and "read_ulong data 24 = Inr h_num_arrays"
    and "unat h_num_arrays < 2 ^ 31"
    and "64 + 16 * unat h_num_arrays \<le> length data"
  shows "unpack data = Inr (map (entry_range data) [0..<unat h_num_arrays])
       \<and> unpack stream \<noteq> Inl TruncatedStream"
proof
  have "unpack data = unpack_loop data (of_nat 0) []"
    using assms(1-4) by (simp add: unpack_def not_less [symmetric])
  also have "\<dots> = Inr ([] @ map (entry_range data) [0..<unat h_num_arrays])"
    by (rule unpack_loop_entries [OF assms(5-7)]) simp
  finally show "unpack data = Inr (map (entry_range data) [0..<unat h_num_arrays])"
    by simp
  show "unpack stream \<noteq> Inl TruncatedStream"
    using unpack_Inl [of stream TruncatedStream] by auto
qed

theorem unpack_keeps_offsets_unchecked_witness:
  "unpack (ulong_bytes MAGIC @ ulong_bytes 128 @ ulong_bytes 128 @ ulong_bytes 2 @ replicate 32 0
           @ ulong_bytes 900 @ ulong_bytes 1000 @ ulong_bytes 7 @ ulong_bytes 3)
     = Inr [\<lparr>range_begin = 900, range_end = 1000\<rparr>, \<lparr>range_begin = 7, range_end = 3\<rparr>]"
proof -
  let ?D = "ulong_bytes MAGIC @ ulong_bytes 128 @ ulong_bytes 128 @ ulong_bytes 2 @ replicate 32 0
           @ ulong_bytes 900 @ ulong_bytes 1000 @ ulong_bytes 7 @ ulong_bytes 3"
  have h1: "read_ulong ?D 0 = Inr MAGIC" by code_simp
  have h2: "read_ulong ?D 8 = Inr 128" by code_simp
  have h3: "read_ulong ?D 16 = Inr 128" by code_simp
  have h4: "(128 :: ulong) \<le> 128" by simp
  have h5: "read_ulong ?D 24 = Inr 2" by code_simp
  have h6: "unat (2 :: ulong) < 2 ^ 31" by simp
  have h7: "64 + 16 * unat (2 :: ulong) \<le> length ?D" by (simp add: length_ulong_bytes)
  have e: "map (entry_range ?D) [0..<unat (2 :: ulong)]
      = [\<lparr>range_begin = 900, range_end = 1000\<rparr>, \<lparr>range_begin = 7, range_end = 3\<rparr>]"
    by code_simp
  from unpack_keeps_offsets_unchecked [OF h1 h2 h3 h4 h5 h6 h7, THEN conjunct1]
  show ?thesis
    by (simp only: e)
qed

end
